theory Spec2Isabelle
  imports Main "HOL-Library.AList" "HOL-Library.Multiset" "HOL-Library.Word"
begin

section \<open>ImportMarkerFeatures: the data\<close>

text \<open>
  The node reads a list of view records and a delimited table of marker observations and
  writes, for every catalogued view, a feature file and a descriptor file, and (when the
  option \<open>hack\<close> is set) one match file. The model follows
  \<^verbatim>\<open>GCPMarkerAdditions/ImportMarkerFeatures.py\<close> function by function.

  Python dictionaries keep their keys in insertion order and a key occurs once: a
  dictionary is an association list, assignment \<^verbatim>\<open>d[k] = v\<close> is \<^const>\<open>AList.update\<close>
  (replace in place, or append at the end), and reading is \<^const>\<open>map_of\<close>.
  Everything that raises in the source is a value \<open>Inl e\<close> of the result.
  A string is a list of characters, a character being a code point below 256.
\<close>

type_synonym byte = "8 word"

type_synonym ('k, 'v) dict = "('k \<times> 'v) list"

datatype error =
    IndexError
  | ValueError
  | KeyError
  | StructError
  | UnboundLocalError
  | OSError
  | ViewDataNotFound
  | CsvError

text \<open>The two kinds of file the node writes: text (mode \<^verbatim>\<open>"w"\<close>) and bytes (\<^verbatim>\<open>"wb"\<close>).\<close>

datatype content = Text string | Binary "byte list"

type_synonym folder = "string \<rightharpoonup> content"

text \<open>
  One element of \<^verbatim>\<open>images[img]\<close>, the list \<^verbatim>\<open>[x, y, size, id]\<close>:
  \<^verbatim>\<open>marker[0]\<close>, \<^verbatim>\<open>marker[1]\<close>, \<^verbatim>\<open>marker[2]\<close> are strings, \<^verbatim>\<open>marker[3]\<close> is an integer.
\<close>

record marker =
  feat_x :: string
  feat_y :: string
  feat_size :: string
  tagid :: int

text \<open>A record of the list \<^verbatim>\<open>"views"\<close> of the SfMData document, as \<^verbatim>\<open>json.load\<close> returns it.
  The view identifier is a string: the source concatenates it with file suffixes.\<close>

record view =
  path :: string
  viewId :: string

datatype desc_type = CCTag3 | CCTag4

fun type_value :: "desc_type \<Rightarrow> string" where
  "type_value CCTag3 = ''cctag3''"
| "type_value CCTag4 = ''cctag4''"

datatype delimiter = Space | Tab | Comma | Colon | Semicolon

fun delimiters_options :: "delimiter \<Rightarrow> char" where
  "delimiters_options Space = CHR '' ''"
| "delimiters_options Tab = CHR 0x09"
| "delimiters_options Comma = CHR '',''"
| "delimiters_options Colon = CHR '':''"
| "delimiters_options Semicolon = CHR '';''"

section \<open>Library functions the node calls\<close>

text \<open>\<^verbatim>\<open>sep.join(xs)\<close>.\<close>

fun join :: "string \<Rightarrow> string list \<Rightarrow> string" where
  "join sep [] = []"
| "join sep [x] = x"
| "join sep (x # y # ys) = x @ sep @ join sep (y # ys)"

text \<open>\<^verbatim>\<open>str(n)\<close> for a non-negative integer: its decimal digits.\<close>

definition digit_char :: "nat \<Rightarrow> char" where
  "digit_char d = char_of (48 + d)"

fun str_nat :: "nat \<Rightarrow> string" where
  "str_nat n = (if n < 10 then [digit_char n] else str_nat (n div 10) @ [digit_char (n mod 10)])"

declare str_nat.simps [simp del]

text \<open>
  \<^verbatim>\<open>int(s)\<close> on a string, base ten: surrounding white space is dropped, one sign is
  allowed, then digits follow, where a single underscore may stand between two digits.
  Anything else raises \<^verbatim>\<open>ValueError\<close> (here \<open>None\<close>). The white space that \<^verbatim>\<open>int\<close> drops
  is the characters 9 to 13 and 32, and of the characters from 128 on those that Unicode
  classes as white space, 133 and 160; the characters 28 to 31 are not dropped. The
  digits are \<open>0\<close> to \<open>9\<close>: no character from 128 to 255 is a decimal digit. The
  interpreter's configurable bound on the number of digits (4300 by default, where there
  is one) is not part of the model.
\<close>

definition is_digit :: "char \<Rightarrow> bool" where
  "is_digit c \<longleftrightarrow> (let n = (of_char c :: nat) in 48 \<le> n \<and> n \<le> 57)"

definition digit_of :: "char \<Rightarrow> nat" where
  "digit_of c = (of_char c :: nat) - 48"

definition is_space :: "char \<Rightarrow> bool" where
  "is_space c \<longleftrightarrow>
     (let n = (of_char c :: nat) in (9 \<le> n \<and> n \<le> 13) \<or> n = 32 \<or> n = 133 \<or> n = 160)"

definition strip :: "string \<Rightarrow> string" where
  "strip s = rev (dropWhile is_space (rev (dropWhile is_space s)))"

fun digits_value :: "nat \<Rightarrow> string \<Rightarrow> nat option" where
  "digits_value acc [] = Some acc"
| "digits_value acc (c # cs) =
     (if is_digit c then digits_value (10 * acc + digit_of c) cs
      else if c = CHR ''_'' \<and> cs \<noteq> [] \<and> is_digit (hd cs) then digits_value acc cs
      else None)"

definition unsigned_value :: "string \<Rightarrow> nat option" where
  "unsigned_value u = (if u = [] \<or> \<not> is_digit (hd u) then None else digits_value 0 u)"

definition py_int :: "string \<Rightarrow> int option" where
  "py_int s =
     (case strip s of
        [] \<Rightarrow> None
      | c # r \<Rightarrow>
          if c = CHR ''-'' then map_option (\<lambda>n. - int n) (unsigned_value r)
          else if c = CHR ''+'' then map_option int (unsigned_value r)
          else map_option int (unsigned_value (c # r)))"

text \<open>\<^verbatim>\<open>os.path.basename\<close> (POSIX): what follows the last slash.\<close>

definition basename :: "string \<Rightarrow> string" where
  "basename p = rev (takeWhile (\<lambda>c. c \<noteq> CHR ''/'') (rev p))"

text \<open>
  \<^verbatim>\<open>open(filepath)\<close> reads in text mode with universal newlines: a carriage return, alone
  or followed by a line feed, is read as one line feed. Iterating over the file gives
  its lines, each with its line feed (the last line may have none).
\<close>

fun universal_newlines :: "string \<Rightarrow> string" where
  "universal_newlines [] = []"
| "universal_newlines [c] = (if c = CHR 0x0D then [CHR 0x0A] else [c])"
| "universal_newlines (c # c' # cs) =
     (if c = CHR 0x0D then
        (if c' = CHR 0x0A then CHR 0x0A # universal_newlines cs
         else CHR 0x0A # universal_newlines (c' # cs))
      else c # universal_newlines (c' # cs))"

fun file_lines :: "string \<Rightarrow> string \<Rightarrow> string list" where
  "file_lines cur [] = (if cur = [] then [] else [rev cur])"
| "file_lines cur (c # cs) =
     (if c = CHR 0x0A then rev (c # cur) # file_lines [] cs else file_lines (c # cur) cs)"

text \<open>
  \<^verbatim>\<open>csv.reader(file, delimiter=d)\<close> with the default dialect otherwise: quote character
  \<open>"\<close>, a doubled quote inside a quoted field stands for one quote, no escape character,
  initial spaces kept, not strict. The reader is the automaton of the \<^verbatim>\<open>csv\<close> module: it
  is fed the characters of a line and then the mark of the end of the line (\<open>None\<close>);
  a record is complete when the automaton is back in \<open>START_RECORD\<close> after a line, so a
  quoted field may run over several lines. A field that would grow beyond the field size
  limit raises \<^verbatim>\<open>csv.Error\<close>. The rows are produced one at a time: the result is the
  rows read before the first error, and that error if there is one.
\<close>

datatype reader_state =
  START_RECORD | START_FIELD | IN_FIELD | IN_QUOTED_FIELD | QUOTE_IN_QUOTED_FIELD | EAT_CRNL

record reader =
  rd_state :: reader_state
  rd_field :: string
  rd_fields :: "string list"

definition field_limit :: int where
  "field_limit = 131072"

definition parse_reset :: reader where
  "parse_reset = \<lparr>rd_state = START_RECORD, rd_field = [], rd_fields = []\<rparr>"

definition parse_add_char :: "reader \<Rightarrow> char \<Rightarrow> error + reader" where
  "parse_add_char rd c =
     (if field_limit \<le> int (length (rd_field rd)) then Inl CsvError
      else Inr (rd\<lparr>rd_field := rd_field rd @ [c]\<rparr>))"

definition parse_save_field :: "reader \<Rightarrow> reader" where
  "parse_save_field rd = rd\<lparr>rd_fields := rd_fields rd @ [rd_field rd], rd_field := []\<rparr>"

definition is_newline :: "char \<Rightarrow> bool" where
  "is_newline c \<longleftrightarrow> c = CHR 0x0A \<or> c = CHR 0x0D"

definition end_of_field :: "reader \<Rightarrow> char option \<Rightarrow> reader" where
  "end_of_field rd c =
     (parse_save_field rd)\<lparr>rd_state := (if c = None then START_RECORD else EAT_CRNL)\<rparr>"

fun start_field :: "char \<Rightarrow> reader \<Rightarrow> char option \<Rightarrow> error + reader" where
  "start_field d rd None = Inr (end_of_field rd None)"
| "start_field d rd (Some c) =
     (if is_newline c then Inr (end_of_field rd (Some c))
      else if c = CHR 0x22 then Inr (rd\<lparr>rd_state := IN_QUOTED_FIELD\<rparr>)
      else if c = d then Inr ((parse_save_field rd)\<lparr>rd_state := START_FIELD\<rparr>)
      else (case parse_add_char rd c of
              Inl e \<Rightarrow> Inl e
            | Inr rd' \<Rightarrow> Inr (rd'\<lparr>rd_state := IN_FIELD\<rparr>)))"

fun parse_process_char :: "char \<Rightarrow> reader \<Rightarrow> char option \<Rightarrow> error + reader" where
  "parse_process_char d rd None =
     (case rd_state rd of
        START_RECORD \<Rightarrow> Inr rd
      | START_FIELD \<Rightarrow> start_field d rd None
      | IN_FIELD \<Rightarrow> Inr (end_of_field rd None)
      | IN_QUOTED_FIELD \<Rightarrow> Inr rd
      | QUOTE_IN_QUOTED_FIELD \<Rightarrow> Inr (end_of_field rd None)
      | EAT_CRNL \<Rightarrow> Inr (rd\<lparr>rd_state := START_RECORD\<rparr>))"
| "parse_process_char d rd (Some c) =
     (case rd_state rd of
        START_RECORD \<Rightarrow>
          if is_newline c then Inr (rd\<lparr>rd_state := EAT_CRNL\<rparr>)
          else start_field d (rd\<lparr>rd_state := START_FIELD\<rparr>) (Some c)
      | START_FIELD \<Rightarrow> start_field d rd (Some c)
      | IN_FIELD \<Rightarrow>
          if is_newline c then Inr (end_of_field rd (Some c))
          else if c = d then Inr ((parse_save_field rd)\<lparr>rd_state := START_FIELD\<rparr>)
          else parse_add_char rd c
      | IN_QUOTED_FIELD \<Rightarrow>
          if c = CHR 0x22 then Inr (rd\<lparr>rd_state := QUOTE_IN_QUOTED_FIELD\<rparr>)
          else parse_add_char rd c
      | QUOTE_IN_QUOTED_FIELD \<Rightarrow>
          if c = CHR 0x22 then
            (case parse_add_char rd c of
               Inl e \<Rightarrow> Inl e
             | Inr rd' \<Rightarrow> Inr (rd'\<lparr>rd_state := IN_QUOTED_FIELD\<rparr>))
          else if c = d then Inr ((parse_save_field rd)\<lparr>rd_state := START_FIELD\<rparr>)
          else if is_newline c then Inr (end_of_field rd (Some c))
          else (case parse_add_char rd c of
                  Inl e \<Rightarrow> Inl e
                | Inr rd' \<Rightarrow> Inr (rd'\<lparr>rd_state := IN_FIELD\<rparr>))
      | EAT_CRNL \<Rightarrow> if is_newline c then Inr rd else Inl CsvError)"

fun process_line :: "char \<Rightarrow> reader \<Rightarrow> char option list \<Rightarrow> error + reader" where
  "process_line d rd [] = Inr rd"
| "process_line d rd (c # cs) =
     (case parse_process_char d rd c of
        Inl e \<Rightarrow> Inl e
      | Inr rd' \<Rightarrow> process_line d rd' cs)"

fun read_records :: "char \<Rightarrow> reader \<Rightarrow> string list \<Rightarrow> string list list \<times> error option" where
  "read_records d rd [] =
     (if rd_field rd \<noteq> [] \<or> rd_state rd = IN_QUOTED_FIELD
      then ([rd_fields (parse_save_field rd)], None) else ([], None))"
| "read_records d rd (l # ls) =
     (case process_line d rd (map Some l @ [None]) of
        Inl e \<Rightarrow> ([], Some e)
      | Inr rd' \<Rightarrow>
          if rd_state rd' = START_RECORD then
            (case read_records d parse_reset ls of (rows, e) \<Rightarrow> (rd_fields rd' # rows, e))
          else read_records d rd' ls)"

definition csv_reader :: "char \<Rightarrow> string \<Rightarrow> string list list \<times> error option" where
  "csv_reader d text = read_records d parse_reset (file_lines [] (universal_newlines text))"

text \<open>\<^verbatim>\<open>struct.pack('<Q', n)\<close>: eight bytes, least significant first; a value that does
  not fit raises \<^verbatim>\<open>struct.error\<close>. \<open>unpack_Q\<close> reads such a field back.\<close>

fun le_bytes :: "nat \<Rightarrow> nat \<Rightarrow> byte list" where
  "le_bytes 0 n = []"
| "le_bytes (Suc k) n = of_nat (n mod 256) # le_bytes k (n div 256)"

fun le_value :: "byte list \<Rightarrow> nat" where
  "le_value [] = 0"
| "le_value (b # bs) = unat b + 256 * le_value bs"

definition pack_Q :: "nat \<Rightarrow> error + byte list" where
  "pack_Q n = (if n < 2 ^ 64 then Inr (le_bytes 8 n) else Inl StructError)"

definition unpack_Q :: "byte list \<Rightarrow> nat" where
  "unpack_Q bs = le_value (take 8 bs)"

text \<open>\<^verbatim>\<open>bytearray(n)\<close> and \<^verbatim>\<open>data[i] = v\<close>: a negative index counts from the end, an index
  outside \<open>-n .. n-1\<close> raises \<^verbatim>\<open>IndexError\<close>.\<close>

definition bytearray :: "nat \<Rightarrow> byte list" where
  "bytearray n = replicate n 0"

definition bytearray_set :: "byte list \<Rightarrow> int \<Rightarrow> byte \<Rightarrow> error + byte list" where
  "bytearray_set data i v =
     (let n = int (length data); j = (if i < 0 then i + n else i)
      in if 0 \<le> j \<and> j < n then Inr (data[nat j := v]) else Inl IndexError)"

text \<open>\<^verbatim>\<open>itertools.combinations(xs, 2)\<close>: the pairs of positions \<open>i < j\<close>, in order.\<close>

fun combinations2 :: "'a list \<Rightarrow> ('a \<times> 'a) list" where
  "combinations2 [] = []"
| "combinations2 (x # xs) = map (Pair x) xs @ combinations2 xs"

text \<open>A dictionary comprehension \<^verbatim>\<open>{k: v for k in ks}\<close>, added to \<open>d\<close>.\<close>

fun dict_from_keys :: "('k, 'v) dict \<Rightarrow> 'k list \<Rightarrow> 'v \<Rightarrow> ('k, 'v) dict" where
  "dict_from_keys d [] v = d"
| "dict_from_keys d (k # ks) v = dict_from_keys (AList.update k v d) ks v"

section \<open>load\_viewids\<close>

text \<open>
  \<^verbatim>\<open>for item in views: views_lookup[os.path.basename(item["path"])] = item["viewId"]\<close>.
  The argument is the list \<^verbatim>\<open>"views"\<close> of the document, or \<open>None\<close> when the file does
  not exist.
\<close>

fun views_lookup_loop :: "(string, string) dict \<Rightarrow> view list \<Rightarrow> (string, string) dict" where
  "views_lookup_loop d [] = d"
| "views_lookup_loop d (item # views) =
     views_lookup_loop (AList.update (basename (path item)) (viewId item) d) views"

definition load_viewids :: "view list option \<Rightarrow> error + (string, string) dict" where
  "load_viewids doc =
     (case doc of
        None \<Rightarrow> Inl ViewDataNotFound
      | Some views \<Rightarrow> Inr (views_lookup_loop [] views))"

section \<open>load\_images\<close>

text \<open>
  One row gives the tuple \<^verbatim>\<open>(row[2], row[0], row[1], row[4], int(row[3]))\<close>: a row with
  fewer than five fields raises \<^verbatim>\<open>IndexError\<close> before \<^verbatim>\<open>int\<close> is called. The tuple is
  kept as the file name and the marker \<^verbatim>\<open>[*item[1:]]\<close>.
\<close>

definition parse_row :: "string list \<Rightarrow> error + (string \<times> marker)" where
  "parse_row row =
     (if length row < 5 then Inl IndexError
      else case py_int (row ! 3) of
             None \<Rightarrow> Inl ValueError
           | Some n \<Rightarrow>
               Inr (row ! 2, \<lparr>feat_x = row ! 0, feat_y = row ! 1, feat_size = row ! 4, tagid = n\<rparr>))"

fun csv_data :: "string list list \<Rightarrow> error + (string \<times> marker) list" where
  "csv_data [] = Inr []"
| "csv_data (row # rows) =
     (case parse_row row of
        Inl e \<Rightarrow> Inl e
      | Inr item \<Rightarrow> (case csv_data rows of Inl e \<Rightarrow> Inl e | Inr items \<Rightarrow> Inr (item # items)))"

text \<open>\<^verbatim>\<open>for item in csv_data: images[item[0]].append([*item[1:]])\<close>.\<close>

fun append_items ::
  "(string, marker list) dict \<Rightarrow> (string \<times> marker) list \<Rightarrow> error + (string, marker list) dict"
where
  "append_items images [] = Inr images"
| "append_items images (item # items) =
     (case map_of images (fst item) of
        None \<Rightarrow> Inl KeyError
      | Some ms \<Rightarrow> append_items (AList.update (fst item) (ms @ [snd item]) images) items)"

definition images_of_rows :: "string list list \<Rightarrow> error + (string, marker list) dict" where
  "images_of_rows rows =
     (case csv_data rows of
        Inl e \<Rightarrow> Inl e
      | Inr items \<Rightarrow> append_items (dict_from_keys [] (map fst items) []) items)"

text \<open>\<^verbatim>\<open>load_images\<close> on the text of the file. The list comprehension asks the reader
  for one row after the other, so an error of the reader comes after the errors of the
  rows read before it.\<close>

definition load_images :: "string \<Rightarrow> char \<Rightarrow> error + (string, marker list) dict" where
  "load_images text d =
     (case csv_reader d text of
        (rows, None) \<Rightarrow> images_of_rows rows
      | (rows, Some e) \<Rightarrow> (case csv_data rows of Inl e' \<Rightarrow> Inl e' | Inr items \<Rightarrow> Inl e))"

section \<open>write\_describers\<close>

text \<open>
  The state of the loop over the views: the output folder (file name to content), the
  dictionary \<^verbatim>\<open>feature_lookup[viewid][tagid]\<close>, and the local variable \<^verbatim>\<open>marker\<close>, which
  the source reads after the inner loop and which is unbound until a first marker was
  seen. The counters \<^verbatim>\<open>found_markers\<close> are only logged (every \<^verbatim>\<open>tagid\<close> read is one of
  their keys) and are left out.
\<close>

record describers =
  files :: folder
  feature_lookup :: "(string, (int, string) dict) dict"
  marker_var :: "marker option"

definition feat_name :: "desc_type \<Rightarrow> string \<Rightarrow> string" where
  "feat_name ty viewid = viewid @ ''.'' @ type_value ty @ ''.feat''"

definition desc_name :: "desc_type \<Rightarrow> string \<Rightarrow> string" where
  "desc_name ty viewid = viewid @ ''.'' @ type_value ty @ ''.desc''"

definition feat_line :: "marker \<Rightarrow> string" where
  "feat_line m = join '' '' [feat_x m, feat_y m, feat_size m, ''0'' @ [CHR 0x0A]]"

text \<open>The loop \<^verbatim>\<open>for marker in markers\<close>: the text written to the feature file so far, the
  running \<^verbatim>\<open>feat_idx\<close>, and \<^verbatim>\<open>feature_lookup[viewid][tagid] = str(feat_idx)\<close>.\<close>

fun features_loop ::
  "marker list \<Rightarrow> string \<Rightarrow> nat \<Rightarrow> string \<Rightarrow> (string, (int, string) dict) dict
     \<Rightarrow> error + (string \<times> (string, (int, string) dict) dict)"
where
  "features_loop [] viewid feat_idx feat fl = Inr (feat, fl)"
| "features_loop (m # ms) viewid feat_idx feat fl =
     (case map_of fl viewid of
        None \<Rightarrow> Inl KeyError
      | Some d \<Rightarrow>
          features_loop ms viewid (feat_idx + 1) (feat @ feat_line m)
            (AList.update viewid (AList.update (tagid m) (str_nat feat_idx) d) fl))"

text \<open>The body of \<^verbatim>\<open>for i, img in enumerate(lookup)\<close> for the entry \<open>(img, viewid)\<close>.\<close>

definition write_view ::
  "bool \<Rightarrow> desc_type \<Rightarrow> (string, marker list) dict \<Rightarrow> describers \<Rightarrow> string \<times> string
     \<Rightarrow> error + describers"
where
  "write_view hack ty images st entry =
     (case entry of (img, viewid) \<Rightarrow>
        (case map_of images img of
           Some markers \<Rightarrow>
             (case pack_Q (length markers) of
                Inl e \<Rightarrow> Inl e
              | Inr cnt \<Rightarrow>
                  (case features_loop markers viewid 0 [] (feature_lookup st) of
                     Inl e \<Rightarrow> Inl e
                   | Inr (feat, fl) \<Rightarrow>
                       (let mv = (if markers = [] then marker_var st else Some (last markers)) in
                        if \<not> hack then
                          (case mv of
                             None \<Rightarrow> Inl UnboundLocalError
                           | Some marker \<Rightarrow>
                               (case bytearray_set (bytearray 128) (tagid marker) 255 of
                                  Inl e \<Rightarrow> Inl e
                                | Inr data \<Rightarrow>
                                    Inr \<lparr>files = (files st)
                                           (feat_name ty viewid \<mapsto> Text feat,
                                            desc_name ty viewid \<mapsto> Binary (cnt @ data)),
                                         feature_lookup = fl, marker_var = mv\<rparr>))
                        else
                          Inr \<lparr>files = (files st)
                                 (feat_name ty viewid \<mapsto> Text feat,
                                  desc_name ty viewid \<mapsto> Binary cnt),
                               feature_lookup = fl, marker_var = mv\<rparr>)))
         | None \<Rightarrow>
             (case pack_Q 0 of
                Inl e \<Rightarrow> Inl e
              | Inr cnt \<Rightarrow>
                  Inr (st\<lparr>files := (files st)
                            (feat_name ty viewid \<mapsto> Text [],
                             desc_name ty viewid \<mapsto> Binary cnt)\<rparr>))))"

fun write_views ::
  "bool \<Rightarrow> desc_type \<Rightarrow> (string, marker list) dict \<Rightarrow> (string, string) dict \<Rightarrow> describers
     \<Rightarrow> error + describers"
where
  "write_views hack ty images [] st = Inr st"
| "write_views hack ty images (entry # lookup) st =
     (case write_view hack ty images st entry of
        Inl e \<Rightarrow> Inl e
      | Inr st' \<Rightarrow> write_views hack ty images lookup st')"

text \<open>
  \<^verbatim>\<open>write_describers\<close> on the folder \<open>out\<close>. The result holds the folder after the run and
  the returned \<^verbatim>\<open>feature_lookup\<close>. The loop visits the entries of \<open>lookup\<close> in order;
  \<^verbatim>\<open>lookup[img]\<close> is the second component of the entry, the keys of a dictionary being
  distinct.
\<close>

definition write_describers ::
  "bool \<Rightarrow> desc_type \<Rightarrow> (string, marker list) dict \<Rightarrow> (string, string) dict \<Rightarrow> folder
     \<Rightarrow> error + describers"
where
  "write_describers hack ty images lookup out =
     write_views hack ty images lookup
       \<lparr>files = out, feature_lookup = dict_from_keys [] (map snd lookup) [], marker_var = None\<rparr>"

section \<open>make\_matches\_txt\<close>

text \<open>
  \<^verbatim>\<open>match = tags_detected_A & tags_detected_B\<close> is a set. Its emptiness and size are those
  of the list of common keys; the order in which \<^verbatim>\<open>for tagid in match\<close> visits it is not
  fixed by the language and is the parameter \<open>set_order\<close>.
\<close>

fun match_lines ::
  "(int, string) dict \<Rightarrow> (int, string) dict \<Rightarrow> int list \<Rightarrow> error + string list"
where
  "match_lines dA dB [] = Inr []"
| "match_lines dA dB (t # ts) =
     (case map_of dA t of
        None \<Rightarrow> Inl KeyError
      | Some feature_index_A \<Rightarrow>
          (case map_of dB t of
             None \<Rightarrow> Inl KeyError
           | Some feature_index_B \<Rightarrow>
               (case match_lines dA dB ts of
                  Inl e \<Rightarrow> Inl e
                | Inr ls \<Rightarrow> Inr (join '' '' [feature_index_A, feature_index_B] # ls))))"

definition match_block ::
  "(int list \<Rightarrow> int list) \<Rightarrow> desc_type \<Rightarrow> (string, (int, string) dict) dict \<Rightarrow> string \<times> string
     \<Rightarrow> error + string list"
where
  "match_block set_order ty fl pair =
     (case pair of (viewid_A, viewid_B) \<Rightarrow>
        (case map_of fl viewid_A of
           None \<Rightarrow> Inl KeyError
         | Some dA \<Rightarrow>
             (case map_of fl viewid_B of
                None \<Rightarrow> Inl KeyError
              | Some dB \<Rightarrow>
                  (let match = filter (\<lambda>t. t \<in> set (map fst dB)) (map fst dA) in
                   if match \<noteq> [] then
                     (case match_lines dA dB (set_order match) of
                        Inl e \<Rightarrow> Inl e
                      | Inr ls \<Rightarrow>
                          Inr ([join '' '' [viewid_A, viewid_B], ''1'',
                                type_value ty @ '' '' @ str_nat (length match)] @ ls))
                   else Inr []))))"

fun out_temp ::
  "(int list \<Rightarrow> int list) \<Rightarrow> desc_type \<Rightarrow> (string, (int, string) dict) dict
     \<Rightarrow> (string \<times> string) list \<Rightarrow> error + string list"
where
  "out_temp set_order ty fl [] = Inr []"
| "out_temp set_order ty fl (pair # image_pairs) =
     (case match_block set_order ty fl pair of
        Inl e \<Rightarrow> Inl e
      | Inr block \<Rightarrow>
          (case out_temp set_order ty fl image_pairs of
             Inl e \<Rightarrow> Inl e
           | Inr ls \<Rightarrow> Inr (block @ ls)))"

definition make_matches_txt ::
  "(int list \<Rightarrow> int list) \<Rightarrow> desc_type \<Rightarrow> (string \<times> string) list
     \<Rightarrow> (string, (int, string) dict) dict \<Rightarrow> folder \<Rightarrow> error + folder"
where
  "make_matches_txt set_order ty image_pairs fl dir =
     (case out_temp set_order ty fl image_pairs of
        Inl e \<Rightarrow> Inl e
      | Inr ls \<Rightarrow> Inr (dir(''0.matches.txt'' \<mapsto> Text (join [CHR 0x0A] ls))))"

section \<open>processChunk\<close>

text \<open>
  The attributes of the node that the run reads: the two input files (\<open>None\<close> when
  \<^verbatim>\<open>os.path.isfile\<close> is false), the options, and the two folders it writes into, each with
  the files it holds before the run. The result is the two folders after the run.
\<close>

record node =
  input :: "view list option"
  matches :: "string option"
  hack :: bool
  delimiter :: delimiter
  type :: desc_type
  output_folder :: folder
  matches_out :: folder

definition processChunk :: "(int list \<Rightarrow> int list) \<Rightarrow> node \<Rightarrow> error + (folder \<times> folder)" where
  "processChunk set_order nd =
     (case matches nd of
        None \<Rightarrow> Inl OSError
      | Some text \<Rightarrow>
          (case load_viewids (input nd) of
             Inl e \<Rightarrow> Inl e
           | Inr lookup \<Rightarrow>
               (let image_pairs = combinations2 (map snd lookup) in
                case load_images text (delimiters_options (delimiter nd)) of
                  Inl e \<Rightarrow> Inl e
                | Inr images \<Rightarrow>
                    (case write_describers (hack nd) (type nd) images lookup (output_folder nd) of
                       Inl e \<Rightarrow> Inl e
                     | Inr st \<Rightarrow>
                         if hack nd then
                           (case make_matches_txt set_order (type nd) image_pairs
                                   (feature_lookup st) (matches_out nd) of
                              Inl e \<Rightarrow> Inl e
                            | Inr dir \<Rightarrow> Inr (files st, dir))
                         else Inr (files st, matches_out nd)))))"

section \<open>Notions used to state the properties\<close>

text \<open>The markers grouped under a file name: \<^verbatim>\<open>images[img]\<close>, empty when \<^verbatim>\<open>img not in images\<close>.\<close>

definition markers_of :: "(string, marker list) dict \<Rightarrow> string \<Rightarrow> marker list" where
  "markers_of images img = (case map_of images img of None \<Rightarrow> [] | Some ms \<Rightarrow> ms)"

text \<open>What the inner loop of \<^verbatim>\<open>write_describers\<close> leaves in \<^verbatim>\<open>feature_lookup[viewid]\<close>
  when it starts at row \<open>i\<close> with the dictionary \<open>d\<close>.\<close>

fun tag_index :: "marker list \<Rightarrow> nat \<Rightarrow> (int, string) dict \<Rightarrow> (int, string) dict" where
  "tag_index [] i d = d"
| "tag_index (m # ms) i d = tag_index ms (i + 1) (AList.update (tagid m) (str_nat i) d)"

text \<open>The groups of the catalogued views are not empty (as \<^verbatim>\<open>load_images\<close> builds them)
  and their lengths fit an unsigned 64-bit field.\<close>

definition groups_ok :: "(string, marker list) dict \<Rightarrow> (string, string) dict \<Rightarrow> bool" where
  "groups_ok images lookup \<longleftrightarrow>
     (\<forall>entry \<in> set lookup. \<forall>ms. map_of images (fst entry) = Some ms \<longrightarrow> ms \<noteq> [] \<and> length ms < 2 ^ 64)"

text \<open>The last marker of the group of \<open>img\<close> has an identifier that is no index of a
  128-byte array.\<close>

definition overflows :: "(string, marker list) dict \<Rightarrow> string \<Rightarrow> bool" where
  "overflows images img =
     (case map_of images img of
        None \<Rightarrow> False
      | Some ms \<Rightarrow> \<not> (- 128 \<le> tagid (last ms) \<and> tagid (last ms) < 128))"

text \<open>An input used to instantiate the theorems: two images with markers (the first sees
  marker 3 twice), three catalogued views, the third without markers.\<close>

definition example_images :: "(string, marker list) dict" where
  "example_images =
     [(''a.jpg'', [\<lparr>feat_x = ''10'', feat_y = ''20'', feat_size = ''5'', tagid = 3\<rparr>,
                  \<lparr>feat_x = ''11'', feat_y = ''21'', feat_size = ''5'', tagid = 7\<rparr>,
                  \<lparr>feat_x = ''12'', feat_y = ''22'', feat_size = ''5'', tagid = 3\<rparr>]),
      (''b.jpg'', [\<lparr>feat_x = ''30'', feat_y = ''40'', feat_size = ''6'', tagid = 3\<rparr>])]"

definition example_lookup :: "(string, string) dict" where
  "example_lookup = [(''a.jpg'', ''1''), (''b.jpg'', ''2''), (''c.jpg'', ''3'')]"

definition example_run :: "bool \<Rightarrow> describers" where
  "example_run bypass =
     projr (write_describers bypass CCTag3 example_images example_lookup Map.empty)"

text \<open>A second input: one catalogued view, whose markers have the given identifiers.\<close>

definition single_marker :: "int \<Rightarrow> marker" where
  "single_marker n = \<lparr>feat_x = ''10'', feat_y = ''20'', feat_size = ''5'', tagid = n\<rparr>"

definition boundary_images :: "int list \<Rightarrow> (string, marker list) dict" where
  "boundary_images ns = [(''a.jpg'', map single_marker ns)]"

definition boundary_lookup :: "(string, string) dict" where
  "boundary_lookup = [(''a.jpg'', ''1'')]"

text \<open>The concrete scenario of the specification: two rows, two views, bypass enabled.\<close>

definition scenario_table :: string where
  "scenario_table = ''10,20,imgA.jpg,3,5'' @ [CHR 0x0A] @ ''30,40,imgB.jpg,3,5''"

definition scenario_views :: "view list" where
  "scenario_views = [\<lparr>path = ''imgA.jpg'', viewId = ''1''\<rparr>, \<lparr>path = ''imgB.jpg'', viewId = ''2''\<rparr>]"

definition scenario_images :: "(string, marker list) dict" where
  "scenario_images =
     [(''imgA.jpg'', [\<lparr>feat_x = ''10'', feat_y = ''20'', feat_size = ''5'', tagid = 3\<rparr>]),
      (''imgB.jpg'', [\<lparr>feat_x = ''30'', feat_y = ''40'', feat_size = ''5'', tagid = 3\<rparr>])]"

definition scenario_node :: "folder \<Rightarrow> folder \<Rightarrow> node" where
  "scenario_node out dir =
     \<lparr>input = Some scenario_views, matches = Some scenario_table, hack = True,
      delimiter = Comma, type = CCTag3, output_folder = out, matches_out = dir\<rparr>"

text \<open>The key under which a view record is catalogued, and a document in which two
  records share a basename.\<close>

definition view_key :: "view \<Rightarrow> string" where
  "view_key item = basename (path item)"

definition colliding_views :: "view list" where
  "colliding_views =
     [\<lparr>path = ''/p/a.jpg'', viewId = ''1''\<rparr>, \<lparr>path = ''/p/b.jpg'', viewId = ''3''\<rparr>,
      \<lparr>path = ''/q/a.jpg'', viewId = ''2''\<rparr>]"

text \<open>A row that \<^verbatim>\<open>load_images\<close> accepts (five fields or more, the fourth an integer
  literal, short enough for the default bound of the interpreter on the digits of an
  integer literal), the marker it yields, and a table of three rows over two images.\<close>

definition well_formed_row :: "string list \<Rightarrow> bool" where
  "well_formed_row row \<longleftrightarrow>
     5 \<le> length row \<and> py_int (row ! 3) \<noteq> None \<and> length (row ! 3) \<le> 4300"

definition marker_of_row :: "string list \<Rightarrow> marker" where
  "marker_of_row row =
     \<lparr>feat_x = row ! 0, feat_y = row ! 1, feat_size = row ! 4, tagid = the (py_int (row ! 3))\<rparr>"

definition three_rows_table :: string where
  "three_rows_table =
     ''10,20,imgA.jpg,3,5'' @ [CHR 0x0A] @ ''30,40,imgB.jpg,3,5'' @ [CHR 0x0A] @
     ''11,21,imgA.jpg,-4,6'' @ [CHR 0x0A]"


text \<open>A run with bypass in which the two views see different markers.\<close>

definition disjoint_table :: string where
  "disjoint_table = ''10,20,imgA.jpg,3,5'' @ [CHR 0x0A] @ ''30,40,imgB.jpg,4,5''"

definition disjoint_images :: "(string, marker list) dict" where
  "disjoint_images =
     [(''imgA.jpg'', [\<lparr>feat_x = ''10'', feat_y = ''20'', feat_size = ''5'', tagid = 3\<rparr>]),
      (''imgB.jpg'', [\<lparr>feat_x = ''30'', feat_y = ''40'', feat_size = ''5'', tagid = 4\<rparr>])]"

definition disjoint_node :: node where
  "disjoint_node =
     \<lparr>input = Some scenario_views, matches = Some disjoint_table, hack = True,
      delimiter = Comma, type = CCTag3, output_folder = Map.empty, matches_out = Map.empty\<rparr>"



section \<open>Bytes and file names\<close>

lemma length_le_bytes: "length (le_bytes k n) = k"
  by (induction k arbitrary: n) auto

lemma le_value_le_bytes: "le_value (le_bytes k n) = n mod 256 ^ k"
proof (induction k arbitrary: n)
  case 0
  show ?case by simp
next
  case (Suc k)
  have "unat (of_nat (n mod 256) :: byte) = n mod 256"
    by (simp add: unat_of_nat)
  then show ?case
    using Suc [of "n div 256"] by (simp add: mod_mult2_eq)
qed

lemma unpack_Q_le_bytes: "n < 2 ^ 64 \<Longrightarrow> unpack_Q (le_bytes 8 n @ rest) = n"
  by (simp add: unpack_Q_def length_le_bytes le_value_le_bytes)

lemma le_bytes_zero: "le_bytes k 0 = replicate k 0"
  by (induction k) auto

lemma feat_name_inj: "feat_name ty a = feat_name ty b \<longleftrightarrow> a = b"
  by (simp add: feat_name_def)

lemma desc_name_inj: "desc_name ty a = desc_name ty b \<longleftrightarrow> a = b"
  by (simp add: desc_name_def)

lemma feat_name_neq_desc_name: "feat_name ty a \<noteq> desc_name ty b"
proof
  assume "feat_name ty a = desc_name ty b"
  then have "last (feat_name ty a) = last (desc_name ty b)" by simp
  then show False by (simp add: feat_name_def desc_name_def)
qed

lemma eight: "(8::nat) = Suc (Suc (Suc (Suc (Suc (Suc (Suc (Suc 0)))))))"
  by simp

lemma le_bytes_8:
  "le_bytes 8 n = [of_nat (n mod 256), of_nat (n div 256 mod 256),
     of_nat (n div 256 div 256 mod 256), of_nat (n div 256 div 256 div 256 mod 256),
     of_nat (n div 256 div 256 div 256 div 256 mod 256),
     of_nat (n div 256 div 256 div 256 div 256 div 256 mod 256),
     of_nat (n div 256 div 256 div 256 div 256 div 256 div 256 mod 256),
     of_nat (n div 256 div 256 div 256 div 256 div 256 div 256 div 256 mod 256)]"
  unfolding eight le_bytes.simps ..


lemma str_nat_digit: "n < 10 \<Longrightarrow> str_nat n = [digit_char n]"
  by (simp add: str_nat.simps)

section \<open>The loop over the markers of a view\<close>

lemma features_loop_Some:
  "map_of fl vid = Some d \<Longrightarrow>
   features_loop ms vid i feat fl =
     Inr (feat @ concat (map feat_line ms), AList.update vid (tag_index ms i d) fl)"
proof (induction ms arbitrary: i feat fl d)
  case Nil
  then show ?case by (simp add: update_triv)
next
  case (Cons m ms)
  have "map_of (AList.update vid (AList.update (tagid m) (str_nat i) d) fl) vid
          = Some (AList.update (tagid m) (str_nat i) d)"
    by (simp add: update_conv')
  from Cons.IH [OF this] Cons.prems show ?case by simp
qed

lemma keys_tag_index: "fst ` set (tag_index ms i d) = fst ` set d \<union> tagid ` set ms"
  by (induction ms arbitrary: i d) (auto simp: dom_update)



lemma write_view_None:
  "map_of images img = None \<Longrightarrow>
   write_view bypass ty images st (img, vid) =
     Inr (st\<lparr>files := (files st)(feat_name ty vid \<mapsto> Text [],
                                 desc_name ty vid \<mapsto> Binary (le_bytes 8 0))\<rparr>)"
  by (simp add: write_view_def pack_Q_def)

lemma write_view_hack:
  "map_of images img = Some ms \<Longrightarrow> length ms < 2 ^ 64 \<Longrightarrow> map_of (feature_lookup st) vid = Some d \<Longrightarrow>
   write_view True ty images st (img, vid) =
     Inr \<lparr>files = (files st)(feat_name ty vid \<mapsto> Text (concat (map feat_line ms)),
                             desc_name ty vid \<mapsto> Binary (le_bytes 8 (length ms))),
          feature_lookup = AList.update vid (tag_index ms 0 d) (feature_lookup st),
          marker_var = (if ms = [] then marker_var st else Some (last ms))\<rparr>"
  by (simp add: write_view_def pack_Q_def features_loop_Some)

lemma write_view_nohack:
  "map_of images img = Some ms \<Longrightarrow> length ms < 2 ^ 64 \<Longrightarrow> ms \<noteq> [] \<Longrightarrow>
   map_of (feature_lookup st) vid = Some d \<Longrightarrow>
   write_view False ty images st (img, vid) =
     (case bytearray_set (bytearray 128) (tagid (last ms)) 255 of
        Inl e \<Rightarrow> Inl e
      | Inr data \<Rightarrow>
          Inr \<lparr>files = (files st)(feat_name ty vid \<mapsto> Text (concat (map feat_line ms)),
                             desc_name ty vid \<mapsto> Binary (le_bytes 8 (length ms) @ data)),
               feature_lookup = AList.update vid (tag_index ms 0 d) (feature_lookup st),
               marker_var = Some (last ms)\<rparr>)"
  by (simp add: write_view_def pack_Q_def features_loop_Some)

lemma bytearray_set_128:
  "bytearray_set (bytearray 128) i v =
     (if - 128 \<le> i \<and> i < 128 then Inr ((replicate 128 0)[nat (if i < 0 then i + 128 else i) := v])
      else Inl IndexError)"
  by (auto simp: bytearray_set_def bytearray_def Let_def)

section \<open>The loop over the views\<close>

lemma map_of_dict_from_keys:
  "map_of (dict_from_keys d ks v) k = (if k \<in> set ks then Some v else map_of d k)"
  by (induction ks arbitrary: d) (auto simp: update_conv')

lemma keys_dict_from_keys: "fst ` set (dict_from_keys d ks v) = fst ` set d \<union> set ks"
  by (induction ks arbitrary: d) (auto simp: dom_update)

lemma distinct_dict_from_keys:
  "distinct (map fst d) \<Longrightarrow> distinct (map fst (dict_from_keys d ks v))"
  by (induction ks arbitrary: d) (auto simp: distinct_update)

lemma features_loop_keys:
  "features_loop ms vid i feat fl = Inr (feat', fl') \<Longrightarrow> map fst fl' = map fst fl"
proof (induction ms arbitrary: i feat fl)
  case Nil
  then show ?case by simp
next
  case (Cons m ms)
  from Cons.prems obtain d where d: "map_of fl vid = Some d"
    by (auto split: option.splits)
  then have "vid \<in> set (map fst fl)"
    by (metis map_of_eq_None_iff option.distinct(1) set_map)
  with Cons d show ?case
    by (auto simp: update_keys)
qed

lemma features_loop_other:
  "features_loop ms vid i feat fl = Inr (feat', fl') \<Longrightarrow> v \<noteq> vid \<Longrightarrow> map_of fl' v = map_of fl v"
proof (induction ms arbitrary: i feat fl)
  case Nil
  then show ?case by simp
next
  case (Cons m ms)
  from Cons.prems obtain d where d: "map_of fl vid = Some d"
    by (auto split: option.splits)
  with Cons show ?case
    by (auto simp: update_conv')
qed

lemma write_view_keys:
  assumes "write_view bypass ty images st entry = Inr st'"
  shows "map fst (feature_lookup st') = map fst (feature_lookup st)"
proof (cases entry)
  case (Pair img vid)
  show ?thesis
  proof (cases "map_of images img")
    case None
    with assms Pair show ?thesis by (auto simp: write_view_None)
  next
    case (Some ms)
    with assms Pair obtain feat fl where
      loop: "features_loop ms vid 0 [] (feature_lookup st) = Inr (feat, fl)"
      and fl: "feature_lookup st' = fl"
      by (auto simp: write_view_def Let_def split: sum.splits if_splits option.splits)
    from features_loop_keys [OF loop] fl show ?thesis by simp
  qed
qed

lemma write_view_other_fl:
  assumes "write_view bypass ty images st (img, vid) = Inr st'" "v \<noteq> vid"
  shows "map_of (feature_lookup st') v = map_of (feature_lookup st) v"
proof (cases "map_of images img")
  case None
  with assms show ?thesis by (auto simp: write_view_None)
next
  case (Some ms)
  with assms obtain feat fl where
    loop: "features_loop ms vid 0 [] (feature_lookup st) = Inr (feat, fl)"
    and fl: "feature_lookup st' = fl"
    by (auto simp: write_view_def Let_def split: sum.splits if_splits option.splits)
  from features_loop_other [OF loop assms(2)] fl show ?thesis by simp
qed

lemma write_view_other_files:
  assumes "write_view bypass ty images st (img, vid) = Inr st'"
    "name \<noteq> feat_name ty vid" "name \<noteq> desc_name ty vid"
  shows "files st' name = files st name"
  using assms
  by (auto simp: write_view_def Let_def split: sum.splits if_splits option.splits)

lemma write_view_length:
  "write_view bypass ty images st (img, vid) = Inr st' \<Longrightarrow> map_of images img = Some ms \<Longrightarrow>
   length ms < 2 ^ 64"
  by (auto simp: write_view_def pack_Q_def split: if_splits)

lemma write_views_keys:
  "write_views bypass ty images lookup st = Inr st' \<Longrightarrow>
   map fst (feature_lookup st') = map fst (feature_lookup st)"
proof (induction lookup arbitrary: st)
  case Nil
  then show ?case by simp
next
  case (Cons entry lookup)
  then show ?case
    by (auto split: sum.splits dest: write_view_keys)
qed

lemma write_views_other:
  "write_views bypass ty images lookup st = Inr st' \<Longrightarrow> vid \<notin> snd ` set lookup \<Longrightarrow>
   map_of (feature_lookup st') vid = map_of (feature_lookup st) vid \<and>
   files st' (feat_name ty vid) = files st (feat_name ty vid) \<and>
   files st' (desc_name ty vid) = files st (desc_name ty vid)"
proof (induction lookup arbitrary: st)
  case Nil
  then show ?case by simp
next
  case (Cons entry lookup)
  obtain img v where entry: "entry = (img, v)" by (cases entry)
  from Cons.prems(1) obtain sta where
    step: "write_view bypass ty images st (img, v) = Inr sta"
    and rest: "write_views bypass ty images lookup sta = Inr st'"
    by (auto simp: entry split: sum.splits)
  from Cons.prems(2) entry have neq: "vid \<noteq> v" and notin: "vid \<notin> snd ` set lookup"
    by auto
  have "map_of (feature_lookup sta) vid = map_of (feature_lookup st) vid"
    by (rule write_view_other_fl [OF step neq])
  moreover have "files sta (feat_name ty vid) = files st (feat_name ty vid)"
    using neq by (intro write_view_other_files [OF step])
      (simp_all add: feat_name_inj feat_name_neq_desc_name)
  moreover have "files sta (desc_name ty vid) = files st (desc_name ty vid)"
    using neq feat_name_neq_desc_name [of ty v vid]
    by (intro write_view_other_files [OF step]) (auto simp: desc_name_inj)
  ultimately show ?case
    using Cons.IH [OF rest notin] by simp
qed

lemma write_views_entry:
  assumes "write_views bypass ty images lookup st = Inr st'"
    "(img, vid) \<in> set lookup" "distinct (map snd lookup)"
  shows "\<exists>st1 st2. write_view bypass ty images st1 (img, vid) = Inr st2 \<and>
           map_of (feature_lookup st1) vid = map_of (feature_lookup st) vid \<and>
           map_of (feature_lookup st') vid = map_of (feature_lookup st2) vid \<and>
           files st' (feat_name ty vid) = files st2 (feat_name ty vid) \<and>
           files st' (desc_name ty vid) = files st2 (desc_name ty vid)"
  using assms
proof (induction lookup arbitrary: st)
  case Nil
  then show ?case by simp
next
  case (Cons entry lookup)
  obtain img0 v0 where entry: "entry = (img0, v0)" by (cases entry)
  from Cons.prems(1) obtain sta where
    step: "write_view bypass ty images st (img0, v0) = Inr sta"
    and rest: "write_views bypass ty images lookup sta = Inr st'"
    by (auto simp: entry split: sum.splits)
  from Cons.prems(3) entry have v0: "v0 \<notin> snd ` set lookup" and dist: "distinct (map snd lookup)"
    by auto
  show ?case
  proof (cases "(img, vid) = (img0, v0)")
    case True
    with write_views_other [OF rest v0] step show ?thesis
      by blast
  next
    case False
    with Cons.prems(2) entry have mem: "(img, vid) \<in> set lookup" by auto
    with v0 have neq: "vid \<noteq> v0" by force
    from Cons.IH [OF rest mem dist] obtain st1 st2 where
      h: "write_view bypass ty images st1 (img, vid) = Inr st2"
        "map_of (feature_lookup st1) vid = map_of (feature_lookup sta) vid"
        "map_of (feature_lookup st') vid = map_of (feature_lookup st2) vid"
        "files st' (feat_name ty vid) = files st2 (feat_name ty vid)"
        "files st' (desc_name ty vid) = files st2 (desc_name ty vid)"
      by blast
    from write_view_other_fl [OF step neq] h show ?thesis
      by (intro exI [of _ st1] exI [of _ st2]) simp
  qed
qed

lemma write_describers_entry:
  assumes "write_describers bypass ty images lookup out = Inr st"
    "(img, vid) \<in> set lookup" "distinct (map snd lookup)"
  shows "\<exists>st1 st2. write_view bypass ty images st1 (img, vid) = Inr st2 \<and>
           map_of (feature_lookup st1) vid = Some [] \<and>
           map_of (feature_lookup st) vid = map_of (feature_lookup st2) vid \<and>
           files st (feat_name ty vid) = files st2 (feat_name ty vid) \<and>
           files st (desc_name ty vid) = files st2 (desc_name ty vid)"
proof -
  from assms(2) have "vid \<in> set (map snd lookup)" by force
  then have "map_of (dict_from_keys [] (map snd lookup) ([] :: (int, string) dict)) vid = Some []"
    by (simp add: map_of_dict_from_keys)
  with write_views_entry [OF assms(1) [unfolded write_describers_def] assms(2,3)]
  show ?thesis by simp
qed

section \<open>When the run completes\<close>

lemma map_of_keys_Some: "k \<in> fst ` set d \<Longrightarrow> \<exists>v. map_of d k = Some v"
  by (cases "map_of d k") (auto simp: map_of_eq_None_iff)

lemma write_view_fail:
  assumes "\<forall>ms. map_of images img = Some ms \<longrightarrow> ms \<noteq> [] \<and> length ms < 2 ^ 64"
    and "vid \<in> fst ` set (feature_lookup st)"
    and "overflows images img"
  shows "write_view False ty images st (img, vid) = Inl IndexError"
proof -
  from assms(3) obtain ms where ms: "map_of images img = Some ms"
    and bad: "\<not> (- 128 \<le> tagid (last ms) \<and> tagid (last ms) < 128)"
    by (auto simp: overflows_def split: option.splits)
  from assms(1) ms have ne: "ms \<noteq> []" and len: "length ms < 2 ^ 64" by auto
  from map_of_keys_Some [OF assms(2)] obtain d where d: "map_of (feature_lookup st) vid = Some d" ..
  from bad show ?thesis
    by (simp add: write_view_nohack [OF ms len ne d] bytearray_set_128)
qed

lemma write_view_ok:
  assumes "\<forall>ms. map_of images img = Some ms \<longrightarrow> ms \<noteq> [] \<and> length ms < 2 ^ 64"
    and "vid \<in> fst ` set (feature_lookup st)"
    and "bypass \<or> \<not> overflows images img"
  shows "\<exists>st'. write_view bypass ty images st (img, vid) = Inr st'"
proof (cases "map_of images img")
  case None
  then show ?thesis by (simp add: write_view_None)
next
  case (Some ms)
  from assms(1) Some have ne: "ms \<noteq> []" and len: "length ms < 2 ^ 64" by auto
  from map_of_keys_Some [OF assms(2)] obtain d where d: "map_of (feature_lookup st) vid = Some d" ..
  show ?thesis
  proof (cases bypass)
    case True
    then show ?thesis by (simp add: write_view_hack [OF Some len d])
  next
    case False
    with assms(3) Some have "- 128 \<le> tagid (last ms) \<and> tagid (last ms) < 128"
      by (simp add: overflows_def)
    with False show ?thesis
      by (simp add: write_view_nohack [OF Some len ne d] bytearray_set_128)
  qed
qed

lemma write_views_ok:
  assumes "groups_ok images lookup"
    and "snd ` set lookup \<subseteq> fst ` set (feature_lookup st)"
    and "bypass \<or> (\<forall>entry \<in> set lookup. \<not> overflows images (fst entry))"
  shows "\<exists>st'. write_views bypass ty images lookup st = Inr st'"
  using assms
proof (induction lookup arbitrary: st)
  case Nil
  then show ?case by simp
next
  case (Cons entry lookup)
  obtain img vid where entry: "entry = (img, vid)" by (cases entry)
  have "\<exists>sta. write_view bypass ty images st (img, vid) = Inr sta"
  proof (rule write_view_ok)
    show "\<forall>ms. map_of images img = Some ms \<longrightarrow> ms \<noteq> [] \<and> length ms < 2 ^ 64"
      using Cons.prems(1) entry by (simp add: groups_ok_def)
    show "vid \<in> fst ` set (feature_lookup st)"
      using Cons.prems(2) entry by simp
    show "bypass \<or> \<not> overflows images img"
      using Cons.prems(3) entry by auto
  qed
  then obtain sta where step: "write_view bypass ty images st (img, vid) = Inr sta" ..
  have "fst ` set (feature_lookup sta) = fst ` set (feature_lookup st)"
    using write_view_keys [OF step] by (metis set_map)
  with Cons.prems have "\<exists>st'. write_views bypass ty images lookup sta = Inr st'"
    by (intro Cons.IH) (auto simp: groups_ok_def)
  with step entry show ?case by simp
qed

lemma write_views_fail:
  assumes "groups_ok images lookup"
    and "snd ` set lookup \<subseteq> fst ` set (feature_lookup st)"
    and "\<exists>entry \<in> set lookup. overflows images (fst entry)"
  shows "write_views False ty images lookup st = Inl IndexError"
  using assms
proof (induction lookup arbitrary: st)
  case Nil
  then show ?case by simp
next
  case (Cons entry lookup)
  obtain img vid where entry: "entry = (img, vid)" by (cases entry)
  have wf: "\<forall>ms. map_of images img = Some ms \<longrightarrow> ms \<noteq> [] \<and> length ms < 2 ^ 64"
    using Cons.prems(1) entry by (simp add: groups_ok_def)
  have key: "vid \<in> fst ` set (feature_lookup st)"
    using Cons.prems(2) entry by simp
  show ?case
  proof (cases "overflows images img")
    case True
    from write_view_fail [OF wf key True] entry show ?thesis by simp
  next
    case False
    then have "\<exists>sta. write_view False ty images st (img, vid) = Inr sta"
      by (intro write_view_ok [OF wf key]) simp
    then obtain sta where step: "write_view False ty images st (img, vid) = Inr sta" ..
    have "fst ` set (feature_lookup sta) = fst ` set (feature_lookup st)"
      using write_view_keys [OF step] by (metis set_map)
    with Cons.prems False entry have "write_views False ty images lookup sta = Inl IndexError"
      by (intro Cons.IH) (auto simp: groups_ok_def)
    with step entry show ?thesis by simp
  qed
qed

lemma write_describers_ok:
  assumes "groups_ok images lookup"
    and "bypass \<or> (\<forall>entry \<in> set lookup. \<not> overflows images (fst entry))"
  shows "\<exists>st. write_describers bypass ty images lookup out = Inr st"
  unfolding write_describers_def
  by (rule write_views_ok [OF assms(1) _ assms(2)]) (simp add: keys_dict_from_keys)

lemma write_describers_fail:
  assumes "groups_ok images lookup"
    and "\<exists>entry \<in> set lookup. overflows images (fst entry)"
  shows "write_describers False ty images lookup out = Inl IndexError"
  unfolding write_describers_def
  by (rule write_views_fail [OF assms(1) _ assms(2)]) (simp add: keys_dict_from_keys)

section \<open>The example input\<close>

lemma example_groups_ok: "groups_ok example_images example_lookup"
  by (simp add: groups_ok_def example_images_def example_lookup_def)

lemma example_no_overflow: "\<forall>entry \<in> set example_lookup. \<not> overflows example_images (fst entry)"
  by (simp add: overflows_def example_images_def example_lookup_def)

lemma example_run_Inr:
  "write_describers bypass CCTag3 example_images example_lookup Map.empty = Inr (example_run bypass)"
proof -
  from write_describers_ok [OF example_groups_ok, of bypass CCTag3 Map.empty] example_no_overflow
  obtain st where "write_describers bypass CCTag3 example_images example_lookup Map.empty = Inr st"
    by blast
  then show ?thesis by (simp add: example_run_def)
qed

lemma example_distinct: "distinct (map snd example_lookup)"
  by (simp add: example_lookup_def)

lemma example_group_a:
  "map_of example_images ''a.jpg'' = Some (markers_of example_images ''a.jpg'')"
  "markers_of example_images ''a.jpg'' \<noteq> []"
  "length (markers_of example_images ''a.jpg'') = 3"
  "tagid (last (markers_of example_images ''a.jpg'')) = 3"
  "\<forall>m \<in> set (markers_of example_images ''a.jpg''). 0 \<le> tagid m \<and> tagid m < 128"
  "map tagid (markers_of example_images ''a.jpg'') = [3, 7, 3]"
  by (simp_all add: example_images_def markers_of_def)

lemma example_entries:
  "(''a.jpg'', ''1'') \<in> set example_lookup"
  "(''b.jpg'', ''2'') \<in> set example_lookup"
  "(''c.jpg'', ''3'') \<in> set example_lookup"
  by (simp_all add: example_lookup_def)

lemma example_group_c: "map_of example_images ''c.jpg'' = None"
  by (simp add: example_images_def)

section \<open>Descriptor files\<close>

text \<open>
  C7. A view with \<open>k > 0\<close> markers, bypass enabled: the descriptor file written by a
  completed run holds the eight bytes of the little-endian count \<open>k\<close> and nothing else.
  (View identifiers are distinct, so no other view writes the same file.)
\<close>

theorem bypass_descriptor_is_count_only:
  assumes "write_describers True ty images lookup out = Inr st"
    and "(img, vid) \<in> set lookup"
    and "distinct (map snd lookup)"
    and "map_of images img = Some ms"
    and "ms \<noteq> []"
  shows "\<exists>bs. files st (desc_name ty vid) = Some (Binary bs) \<and> length bs = 8 \<and>
           bs = le_bytes 8 (length ms) \<and> unpack_Q bs = length ms"
proof -
  from write_describers_entry [OF assms(1-3)] obtain st1 st2 where
    step: "write_view True ty images st1 (img, vid) = Inr st2"
    and init: "map_of (feature_lookup st1) vid = Some []"
    and same: "files st (desc_name ty vid) = files st2 (desc_name ty vid)"
    by blast
  have len: "length ms < 2 ^ 64"
    by (rule write_view_length [OF step assms(4)])
  from step write_view_hack [OF assms(4) len init, of ty]
  have "files st2 (desc_name ty vid) = Some (Binary (le_bytes 8 (length ms)))"
    by auto
  with same len unpack_Q_le_bytes [OF len, of "[]"] show ?thesis
    by (simp add: length_le_bytes)
qed

theorem bypass_descriptor_is_count_only_witness:
  "write_describers True CCTag3 example_images example_lookup Map.empty = Inr (example_run True) \<and>
   (''a.jpg'', ''1'') \<in> set example_lookup \<and>
   distinct (map snd example_lookup) \<and>
   map_of example_images ''a.jpg'' = Some (markers_of example_images ''a.jpg'') \<and>
   markers_of example_images ''a.jpg'' \<noteq> [] \<and>
   files (example_run True) ''1.cctag3.desc'' = Some (Binary [3, 0, 0, 0, 0, 0, 0, 0])"
proof -
  from bypass_descriptor_is_count_only
    [OF example_run_Inr example_entries(1) example_distinct example_group_a(1,2)]
  have "files (example_run True) ''1.cctag3.desc'' = Some (Binary [3, 0, 0, 0, 0, 0, 0, 0])"
    by (simp add: desc_name_def example_group_a(3) le_bytes_8)
  with example_run_Inr example_entries(1) example_distinct example_group_a(1,2)
  show ?thesis by simp
qed

text \<open>
  C2. A view with \<open>k > 0\<close> markers, bypass disabled, every marker identifier of the view
  in \<open>0..127\<close>: the descriptor file written by a completed run has \<open>8 + 128\<close> bytes, the
  little-endian count \<open>k\<close> followed by a block that is zero except for one byte 255 at the
  offset given by the identifier of the last marker of the view.
\<close>

theorem limit_descriptor_is_count_and_one_hot:
  assumes "write_describers False ty images lookup out = Inr st"
    and "(img, vid) \<in> set lookup"
    and "distinct (map snd lookup)"
    and "map_of images img = Some ms"
    and "ms \<noteq> []"
    and "\<forall>m \<in> set ms. 0 \<le> tagid m \<and> tagid m < 128"
  shows "\<exists>bs. files st (desc_name ty vid) = Some (Binary bs) \<and> length bs = 8 + 128 \<and>
           take 8 bs = le_bytes 8 (length ms) \<and> unpack_Q bs = length ms \<and>
           drop 8 bs = (replicate 128 0)[nat (tagid (last ms)) := 255] \<and>
           (\<forall>j < 128. bs ! (8 + j) = (if int j = tagid (last ms) then 255 else 0))"
proof -
  from write_describers_entry [OF assms(1-3)] obtain st1 st2 where
    step: "write_view False ty images st1 (img, vid) = Inr st2"
    and init: "map_of (feature_lookup st1) vid = Some []"
    and same: "files st (desc_name ty vid) = files st2 (desc_name ty vid)"
    by blast
  have len: "length ms < 2 ^ 64"
    by (rule write_view_length [OF step assms(4)])
  from assms(5,6) have rng: "0 \<le> tagid (last ms)" "tagid (last ms) < 128"
    by (auto dest: last_in_set)
  define block :: "byte list" where "block = (replicate 128 0)[nat (tagid (last ms)) := 255]"
  define bs where "bs = le_bytes 8 (length ms) @ block"
  from step rng have "files st2 (desc_name ty vid) = Some (Binary bs)"
    by (auto simp: write_view_nohack [OF assms(4) len assms(5) init] bytearray_set_128
        bs_def block_def)
  with same have written: "files st (desc_name ty vid) = Some (Binary bs)" by simp
  have l: "length bs = 8 + 128"
    by (simp add: bs_def block_def length_le_bytes)
  have t: "take 8 bs = le_bytes 8 (length ms)" and d: "drop 8 bs = block"
    by (simp_all add: bs_def length_le_bytes)
  have u: "unpack_Q bs = length ms"
    unfolding bs_def by (rule unpack_Q_le_bytes [OF len])
  have "bs ! (8 + j) = (if int j = tagid (last ms) then 255 else 0)" if "j < 128" for j
  proof -
    have "bs ! (8 + j) = block ! j"
      by (simp add: bs_def nth_append length_le_bytes)
    also have "\<dots> = (if int j = tagid (last ms) then 255 else 0)"
      using that rng by (auto simp: block_def nth_list_update)
    finally show ?thesis .
  qed
  with written l t u d show ?thesis
    unfolding block_def by blast
qed

theorem limit_descriptor_is_count_and_one_hot_witness:
  "write_describers False CCTag3 example_images example_lookup Map.empty = Inr (example_run False) \<and>
   (''a.jpg'', ''1'') \<in> set example_lookup \<and>
   distinct (map snd example_lookup) \<and>
   map_of example_images ''a.jpg'' = Some (markers_of example_images ''a.jpg'') \<and>
   markers_of example_images ''a.jpg'' \<noteq> [] \<and>
   map tagid (markers_of example_images ''a.jpg'') = [3, 7, 3] \<and>
   (\<exists>bs. files (example_run False) ''1.cctag3.desc'' = Some (Binary bs) \<and> length bs = 136 \<and>
      take 8 bs = [3, 0, 0, 0, 0, 0, 0, 0] \<and> drop 8 bs = (replicate 128 0)[3 := 255])"
proof -
  from limit_descriptor_is_count_and_one_hot
    [OF example_run_Inr example_entries(1) example_distinct example_group_a(1,2,5)]
  have "\<exists>bs. files (example_run False) ''1.cctag3.desc'' = Some (Binary bs) \<and> length bs = 136 \<and>
      take 8 bs = [3, 0, 0, 0, 0, 0, 0, 0] \<and> drop 8 bs = (replicate 128 0)[3 := 255]"
    by (auto simp: desc_name_def example_group_a(3,4) le_bytes_8)
  with example_run_Inr example_entries(1) example_distinct example_group_a(1,2,6)
  show ?thesis by simp
qed

text \<open>
  C4. A catalogued view without markers in the table: a completed run has written both
  files of the view, a descriptor file of eight bytes that decode to 0 and an empty
  feature file, with or without bypass.
\<close>

theorem view_without_markers_gets_empty_files:
  assumes "write_describers bypass ty images lookup out = Inr st"
    and "(img, vid) \<in> set lookup"
    and "distinct (map snd lookup)"
    and "map_of images img = None"
  shows "files st (feat_name ty vid) = Some (Text []) \<and>
         (\<exists>bs. files st (desc_name ty vid) = Some (Binary bs) \<and> bs = replicate 8 0 \<and>
            unpack_Q bs = 0)"
proof -
  from write_describers_entry [OF assms(1-3)] obtain st1 st2 where
    step: "write_view bypass ty images st1 (img, vid) = Inr st2"
    and same: "files st (feat_name ty vid) = files st2 (feat_name ty vid)"
      "files st (desc_name ty vid) = files st2 (desc_name ty vid)"
    by blast
  from step have st2: "files st2 (feat_name ty vid) = Some (Text [])"
    "files st2 (desc_name ty vid) = Some (Binary (replicate 8 0))"
    by (auto simp: write_view_None [OF assms(4)] le_bytes_zero feat_name_neq_desc_name)
  have "unpack_Q (replicate 8 0 :: byte list) = 0"
    using unpack_Q_le_bytes [of 0 "[]"] by (simp add: le_bytes_zero)
  with st2 same show ?thesis by simp
qed

theorem view_without_markers_gets_empty_files_witness:
  "write_describers False CCTag3 example_images example_lookup Map.empty = Inr (example_run False) \<and>
   (''c.jpg'', ''3'') \<in> set example_lookup \<and>
   distinct (map snd example_lookup) \<and>
   map_of example_images ''c.jpg'' = None \<and>
   files (example_run False) ''3.cctag3.feat'' = Some (Text []) \<and>
   files (example_run False) ''3.cctag3.desc'' = Some (Binary [0, 0, 0, 0, 0, 0, 0, 0])"
proof -
  from view_without_markers_gets_empty_files
    [OF example_run_Inr example_entries(3) example_distinct example_group_c]
  have "files (example_run False) ''3.cctag3.feat'' = Some (Text []) \<and>
    files (example_run False) ''3.cctag3.desc'' = Some (Binary [0, 0, 0, 0, 0, 0, 0, 0])"
    by (simp add: desc_name_def feat_name_def eight)
  with example_run_Inr example_entries(3) example_distinct example_group_c
  show ?thesis by simp
qed

section \<open>Reading integers\<close>

lemma digit_char_is_digit: "d < 10 \<Longrightarrow> is_digit (digit_char d)"
  by (simp add: is_digit_def digit_char_def)

lemma digit_of_digit_char: "d < 10 \<Longrightarrow> digit_of (digit_char d) = d"
  by (simp add: digit_of_def digit_char_def)

lemma is_digit_not_space: "is_digit c \<Longrightarrow> \<not> is_space c"
  by (auto simp: is_digit_def is_space_def Let_def)

lemma digits_value_snoc:
  "digits_value acc xs = Some a \<Longrightarrow> is_digit c \<Longrightarrow>
   digits_value acc (xs @ [c]) = Some (10 * a + digit_of c)"
proof (induction xs arbitrary: acc)
  case Nil
  then show ?case by simp
next
  case (Cons x xs)
  show ?case
  proof (cases "is_digit x")
    case True
    with Cons.prems have "digits_value (10 * acc + digit_of x) xs = Some a" by simp
    from Cons.IH [OF this Cons.prems(2)] True show ?thesis by simp
  next
    case False
    with Cons.prems(1) have u: "x = CHR ''_''" "xs \<noteq> []" "is_digit (hd xs)"
      and rest: "digits_value acc xs = Some a"
      by (auto split: if_splits)
    from u(2) have "hd (xs @ [c]) = hd xs" by simp
    with Cons.IH [OF rest Cons.prems(2)] False u show ?thesis by simp
  qed
qed

lemma str_nat_nonempty: "str_nat n \<noteq> []"
  by (subst str_nat.simps) simp

lemma str_nat_hd_last: "is_digit (hd (str_nat n)) \<and> is_digit (last (str_nat n))"
proof (induction n rule: str_nat.induct)
  case (1 n)
  show ?case
  proof (cases "n < 10")
    case True
    then show ?thesis by (simp add: str_nat_digit digit_char_is_digit)
  next
    case False
    have "str_nat n = str_nat (n div 10) @ [digit_char (n mod 10)]"
      using False by (subst str_nat.simps) simp
    with 1 False show ?thesis
      by (simp add: str_nat_nonempty digit_char_is_digit)
  qed
qed

lemma digits_value_str_nat:
  "digits_value acc (str_nat n) = Some (acc * 10 ^ length (str_nat n) + n)"
proof (induction n rule: str_nat.induct)
  case (1 n)
  show ?case
  proof (cases "n < 10")
    case True
    then show ?thesis
      by (simp add: str_nat_digit digit_char_is_digit digit_of_digit_char)
  next
    case False
    have unfold: "str_nat n = str_nat (n div 10) @ [digit_char (n mod 10)]"
      using False by (subst str_nat.simps) simp
    from 1 False have "digits_value acc (str_nat (n div 10))
        = Some (acc * 10 ^ length (str_nat (n div 10)) + n div 10)"
      by simp
    from digits_value_snoc [OF this digit_char_is_digit [of "n mod 10"]]
    show ?thesis
      by (simp add: unfold digit_of_digit_char algebra_simps)
  qed
qed

lemma unsigned_value_str_nat: "unsigned_value (str_nat n) = Some n"
  by (simp add: unsigned_value_def str_nat_nonempty str_nat_hd_last digits_value_str_nat)

lemma dropWhile_hd: "xs \<noteq> [] \<Longrightarrow> \<not> P (hd xs) \<Longrightarrow> dropWhile P xs = xs"
  by (cases xs) simp_all

lemma strip_minus_str_nat: "strip (CHR ''-'' # str_nat n) = CHR ''-'' # str_nat n"
proof -
  have a: "\<not> is_space (CHR ''-'')"
    by (simp add: is_space_def)
  have "hd (rev (CHR ''-'' # str_nat n)) = last (str_nat n)"
    using str_nat_nonempty [of n] by (simp add: hd_rev)
  moreover have "\<not> is_space (last (str_nat n))"
    using str_nat_hd_last [of n] by (simp add: is_digit_not_space)
  ultimately have "dropWhile is_space (rev (CHR ''-'' # str_nat n)) = rev (CHR ''-'' # str_nat n)"
    by (intro dropWhile_hd) simp_all
  with a show ?thesis by (simp add: strip_def)
qed

lemma py_int_negative: "py_int (CHR ''-'' # str_nat n) = Some (- int n)"
  by (simp add: py_int_def strip_minus_str_nat unsigned_value_str_nat)

section \<open>The 128-tag limit\<close>

lemma boundary_groups_ok: "ns \<noteq> [] \<Longrightarrow> length ns < 2 ^ 64 \<Longrightarrow> groups_ok (boundary_images ns) boundary_lookup"
  by (auto simp: groups_ok_def boundary_images_def boundary_lookup_def)

lemma boundary_overflows:
  "ns \<noteq> [] \<Longrightarrow> overflows (boundary_images ns) ''a.jpg'' \<longleftrightarrow> \<not> (- 128 \<le> last ns \<and> last ns < 128)"
  by (simp add: overflows_def boundary_images_def last_map single_marker_def)

text \<open>
  C1, as stated, fails: in non-bypass mode a marker observation with identifier 128 that
  is not the last of its group raises nothing. Here the group of the only view is the
  markers 128 and 5, and the run completes.
\<close>

theorem inner_marker_128_is_not_checked:
  "map tagid (markers_of (boundary_images [128, 5]) ''a.jpg'') = [128, 5] \<and>
   \<not> isl (write_describers False CCTag3 (boundary_images [128, 5]) boundary_lookup Map.empty)"
proof -
  have "groups_ok (boundary_images [128, 5]) boundary_lookup"
    by (rule boundary_groups_ok) simp_all
  moreover have "\<forall>entry \<in> set boundary_lookup. \<not> overflows (boundary_images [128, 5]) (fst entry)"
    by (simp add: boundary_lookup_def boundary_overflows)
  ultimately obtain st where
    "write_describers False CCTag3 (boundary_images [128, 5]) boundary_lookup Map.empty = Inr st"
    using write_describers_ok [of "boundary_images [128, 5]" boundary_lookup False CCTag3 Map.empty]
    by blast
  then show ?thesis
    by (simp add: markers_of_def boundary_images_def single_marker_def)
qed

text \<open>
  C1, amended. The groups of the catalogued views being non-empty: in non-bypass mode the
  run raises \<^verbatim>\<open>IndexError\<close> when the last marker of the group of some catalogued view has
  an identifier of 128 or more; it completes when every such last identifier is in
  \<open>0..127\<close>; and with bypass it completes whatever the identifiers are.
\<close>

theorem last_marker_128_limit:
  assumes "groups_ok images lookup"
  shows "((\<exists>entry \<in> set lookup. \<exists>ms. map_of images (fst entry) = Some ms \<and> 128 \<le> tagid (last ms)) \<longrightarrow>
            write_describers False ty images lookup out = Inl IndexError) \<and>
         ((\<forall>entry \<in> set lookup. \<forall>ms. map_of images (fst entry) = Some ms \<longrightarrow>
              0 \<le> tagid (last ms) \<and> tagid (last ms) \<le> 127) \<longrightarrow>
            (\<exists>st. write_describers False ty images lookup out = Inr st)) \<and>
         (\<exists>st. write_describers True ty images lookup out = Inr st)"
proof (intro conjI impI)
  assume "\<exists>entry \<in> set lookup. \<exists>ms. map_of images (fst entry) = Some ms \<and> 128 \<le> tagid (last ms)"
  then have "\<exists>entry \<in> set lookup. overflows images (fst entry)"
    by (auto simp: overflows_def intro!: bexI)
  then show "write_describers False ty images lookup out = Inl IndexError"
    by (rule write_describers_fail [OF assms])
next
  assume "\<forall>entry \<in> set lookup. \<forall>ms. map_of images (fst entry) = Some ms \<longrightarrow>
            0 \<le> tagid (last ms) \<and> tagid (last ms) \<le> 127"
  then have "\<forall>entry \<in> set lookup. \<not> overflows images (fst entry)"
    by (auto simp: overflows_def split: option.splits)
  then show "\<exists>st. write_describers False ty images lookup out = Inr st"
    by (intro write_describers_ok [OF assms]) simp
next
  show "\<exists>st. write_describers True ty images lookup out = Inr st"
    by (intro write_describers_ok [OF assms]) simp
qed

theorem last_marker_128_limit_witness:
  "groups_ok (boundary_images [128]) boundary_lookup \<and>
   write_describers False CCTag3 (boundary_images [128]) boundary_lookup Map.empty = Inl IndexError \<and>
   (\<exists>st. write_describers True CCTag3 (boundary_images [128]) boundary_lookup Map.empty = Inr st) \<and>
   groups_ok (boundary_images [127]) boundary_lookup \<and>
   (\<exists>st. write_describers False CCTag3 (boundary_images [127]) boundary_lookup Map.empty = Inr st)"
proof -
  have ok: "groups_ok (boundary_images [128]) boundary_lookup"
    "groups_ok (boundary_images [127]) boundary_lookup"
    by (rule boundary_groups_ok; simp)+
  have big: "\<exists>entry \<in> set boundary_lookup. \<exists>ms.
      map_of (boundary_images [128]) (fst entry) = Some ms \<and> 128 \<le> tagid (last ms)"
    by (simp add: boundary_lookup_def boundary_images_def single_marker_def)
  have small: "\<forall>entry \<in> set boundary_lookup. \<forall>ms.
      map_of (boundary_images [127]) (fst entry) = Some ms \<longrightarrow>
        0 \<le> tagid (last ms) \<and> tagid (last ms) \<le> 127"
    by (simp add: boundary_lookup_def boundary_images_def single_marker_def)
  from last_marker_128_limit [OF ok(1), where ty = CCTag3 and out = Map.empty] big
  have "write_describers False CCTag3 (boundary_images [128]) boundary_lookup Map.empty = Inl IndexError"
    "\<exists>st. write_describers True CCTag3 (boundary_images [128]) boundary_lookup Map.empty = Inr st"
    by blast+
  moreover from last_marker_128_limit [OF ok(2), where ty = CCTag3 and out = Map.empty] small
  have "\<exists>st. write_describers False CCTag3 (boundary_images [127]) boundary_lookup Map.empty = Inr st"
    by blast
  ultimately show ?thesis using ok by simp
qed

lemma parse_row_negative:
  "parse_row [x, y, f, CHR ''-'' # str_nat n, sz] =
     Inr (f, \<lparr>feat_x = x, feat_y = y, feat_size = sz, tagid = - int n\<rparr>)"
  by (simp add: parse_row_def py_int_negative)

lemma str_nat_1: "str_nat (Suc 0) = ''1''"
  by code_simp

text \<open>
  C8. In non-bypass mode a negative identifier between \<open>-128\<close> and \<open>-1\<close> on the last
  marker of the group of a view raises nothing: the run completes (no other view
  overflowing) and the indicator byte at offset \<open>128 + markerId\<close> is set. Such an
  identifier is accepted when the table is read: a field \<open>-n\<close> is parsed as the integer
  \<open>-n\<close>, without a check of its sign.
\<close>

theorem negative_last_marker_counts_from_the_end:
  assumes "groups_ok images lookup"
    and "\<forall>entry \<in> set lookup. \<not> overflows images (fst entry)"
    and "(img, vid) \<in> set lookup"
    and "distinct (map snd lookup)"
    and "map_of images img = Some ms"
    and "- 128 \<le> tagid (last ms)"
    and "tagid (last ms) \<le> - 1"
  shows "(\<exists>st. write_describers False ty images lookup out = Inr st \<and>
            files st (desc_name ty vid) =
              Some (Binary (le_bytes 8 (length ms) @
                            (replicate 128 0)[nat (128 + tagid (last ms)) := 255]))) \<and>
         (\<forall>x y f sz n. parse_row [x, y, f, CHR ''-'' # str_nat n, sz] =
            Inr (f, \<lparr>feat_x = x, feat_y = y, feat_size = sz, tagid = - int n\<rparr>))"
proof -
  from write_describers_ok [OF assms(1), of False ty out] assms(2)
  obtain st where run: "write_describers False ty images lookup out = Inr st"
    by blast
  from write_describers_entry [OF run assms(3,4)] obtain st1 st2 where
    step: "write_view False ty images st1 (img, vid) = Inr st2"
    and init: "map_of (feature_lookup st1) vid = Some []"
    and same: "files st (desc_name ty vid) = files st2 (desc_name ty vid)"
    by blast
  from assms(1,3,5) have ne: "ms \<noteq> []" and len: "length ms < 2 ^ 64"
    by (auto simp: groups_ok_def)
  from assms(6,7) have idx: "tagid (last ms) + 128 = 128 + tagid (last ms)" by simp
  from step assms(6,7)
  have "files st2 (desc_name ty vid) =
      Some (Binary (le_bytes 8 (length ms) @ (replicate 128 0)[nat (128 + tagid (last ms)) := 255]))"
    by (auto simp: write_view_nohack [OF assms(5) len ne init] bytearray_set_128 idx)
  with same run show ?thesis
    by (simp add: parse_row_negative)
qed

theorem negative_last_marker_counts_from_the_end_witness:
  "groups_ok (boundary_images [5, - 1]) boundary_lookup \<and>
   map tagid (markers_of (boundary_images [5, - 1]) ''a.jpg'') = [5, - 1] \<and>
   (\<exists>st. write_describers False CCTag3 (boundary_images [5, - 1]) boundary_lookup Map.empty = Inr st \<and>
      files st ''1.cctag3.desc'' =
        Some (Binary ([2, 0, 0, 0, 0, 0, 0, 0] @ (replicate 128 0)[127 := 255]))) \<and>
   parse_row [''10'', ''20'', ''a.jpg'', ''-1'', ''5''] = Inr (''a.jpg'', single_marker (- 1))"
proof -
  have ok: "groups_ok (boundary_images [5, - 1]) boundary_lookup"
    by (rule boundary_groups_ok) simp_all
  have fits: "\<forall>entry \<in> set boundary_lookup. \<not> overflows (boundary_images [5, - 1]) (fst entry)"
    by (simp add: boundary_lookup_def boundary_overflows)
  have entry: "(''a.jpg'', ''1'') \<in> set boundary_lookup" "distinct (map snd boundary_lookup)"
    by (simp_all add: boundary_lookup_def)
  have grp: "map_of (boundary_images [5, - 1]) ''a.jpg'' = Some (map single_marker [5, - 1])"
    by (simp add: boundary_images_def)
  have lst: "- 128 \<le> tagid (last (map single_marker [5, - 1]))"
    "tagid (last (map single_marker [5, - 1])) \<le> - 1"
    by (simp_all add: single_marker_def)
  have tags: "map tagid (markers_of (boundary_images [5, - 1]) ''a.jpg'') = [5, - 1]"
    by (simp add: markers_of_def boundary_images_def single_marker_def)
  from negative_last_marker_counts_from_the_end
    [OF ok fits entry grp lst, where ty = CCTag3 and out = Map.empty]
  have "(\<exists>st. write_describers False CCTag3 (boundary_images [5, - 1]) boundary_lookup Map.empty = Inr st \<and>
      files st ''1.cctag3.desc'' =
        Some (Binary ([2, 0, 0, 0, 0, 0, 0, 0] @ (replicate 128 0)[127 := 255])))"
    and "parse_row [''10'', ''20'', ''a.jpg'', CHR ''-'' # str_nat 1, ''5'']
      = Inr (''a.jpg'', single_marker (- 1))"
    by (simp_all add: desc_name_def le_bytes_8 single_marker_def)
  with ok tags show ?thesis by (simp add: str_nat_1)
qed

section \<open>The scenario of the specification\<close>

lemma scenario_load_images: "load_images scenario_table (CHR '','') = Inr scenario_images"
  unfolding scenario_table_def scenario_images_def by code_simp

lemma scenario_load_viewids:
  "load_viewids (Some scenario_views) = Inr [(''imgA.jpg'', ''1''), (''imgB.jpg'', ''2'')]"
  unfolding scenario_views_def by code_simp

lemma str_nat_0: "str_nat 0 = ''0''"
  by code_simp

lemma scenario_write_describers:
  "\<exists>st. write_describers True CCTag3 scenario_images [(''imgA.jpg'', ''1''), (''imgB.jpg'', ''2'')] out = Inr st \<and>
     feature_lookup st = [(''1'', [(3, ''0'')]), (''2'', [(3, ''0'')])]"
  by (simp add: scenario_images_def write_describers_def write_view_def pack_Q_def str_nat_0)

lemma scenario_make_matches_txt:
  assumes "\<forall>xs. mset (set_order xs) = mset xs"
  shows "make_matches_txt set_order CCTag3 (combinations2 [''1'', ''2''])
     [(''1'', [(3, ''0'')]), (''2'', [(3, ''0'')])] dir =
     Inr (dir(''0.matches.txt'' \<mapsto>
        Text (''1 2'' @ [CHR 0x0A] @ ''1'' @ [CHR 0x0A] @ ''cctag3 1'' @ [CHR 0x0A] @ ''0 0'')))"
proof -
  from assms have "mset (set_order [3]) = mset [3]" by blast
  then have "set_order [3] = [3]" by simp
  then show ?thesis
    by (simp add: make_matches_txt_def match_block_def str_nat_1)
qed

text \<open>
  C3. The marker table of two rows \<open>(10,20,imgA.jpg,3,5)\<close> and \<open>(30,40,imgB.jpg,3,5)\<close>,
  comma delimiter, views \<open>imgA.jpg\<close> with identifier 1 and \<open>imgB.jpg\<close> with identifier 2,
  bypass enabled, type \<open>cctag3\<close>: the run completes and the match file is the block of
  the four lines \<open>1 2\<close>, \<open>1\<close>, \<open>cctag3 1\<close>, \<open>0 0\<close>, whatever the two folders held
  before and in whatever order a set is visited.
\<close>

theorem scenario_match_file:
  assumes "\<forall>xs. mset (set_order xs) = mset xs"
  shows "\<exists>out'. processChunk set_order (scenario_node out dir) =
     Inr (out', dir(''0.matches.txt'' \<mapsto>
        Text (''1 2'' @ [CHR 0x0A] @ ''1'' @ [CHR 0x0A] @ ''cctag3 1'' @ [CHR 0x0A] @ ''0 0'')))"
proof -
  from scenario_write_describers [of out] obtain st where
    "write_describers True CCTag3 scenario_images [(''imgA.jpg'', ''1''), (''imgB.jpg'', ''2'')] out = Inr st"
    "feature_lookup st = [(''1'', [(3, ''0'')]), (''2'', [(3, ''0'')])]"
    by blast
  with scenario_make_matches_txt [OF assms, of dir] show ?thesis
    by (simp add: processChunk_def scenario_node_def scenario_load_images scenario_load_viewids)
qed

theorem scenario_match_file_witness:
  "\<exists>out'. processChunk (\<lambda>xs. xs) (scenario_node Map.empty Map.empty) =
     Inr (out', [''0.matches.txt'' \<mapsto>
        Text (''1 2'' @ [CHR 0x0A] @ ''1'' @ [CHR 0x0A] @ ''cctag3 1'' @ [CHR 0x0A] @ ''0 0'')])"
  using scenario_match_file [of "\<lambda>xs. xs" Map.empty Map.empty] by simp

section \<open>The view catalogue\<close>

lemma views_lookup_loop_map_of:
  "map_of (views_lookup_loop d views) =
     map_of d ++ map_of (rev (map (\<lambda>item. (view_key item, viewId item)) views))"
proof (induction views arbitrary: d)
  case Nil
  show ?case by simp
next
  case (Cons item views)
  have "(map_of d)(view_key item \<mapsto> viewId item) = map_of d ++ [view_key item \<mapsto> viewId item]"
    by simp
  then show ?case
    by (simp add: Cons update_conv' view_key_def [symmetric] del: map_add_upd)
qed

lemma views_lookup_loop_keys:
  "fst ` set (views_lookup_loop d views) = fst ` set d \<union> view_key ` set views"
  by (induction views arbitrary: d) (auto simp: dom_update view_key_def)

lemma views_lookup_loop_distinct:
  "distinct (map fst d) \<Longrightarrow> distinct (map fst (views_lookup_loop d views))"
  by (induction views arbitrary: d) (auto simp: distinct_update)

lemma views_lookup_loop_length:
  "length (views_lookup_loop [] views) = card (view_key ` set views)"
proof -
  have "distinct (map fst (views_lookup_loop [] views))"
    by (rule views_lookup_loop_distinct) simp
  then have "length (map fst (views_lookup_loop [] views))
      = card (set (map fst (views_lookup_loop [] views)))"
    by (simp only: distinct_card)
  then show ?thesis
    by (simp add: views_lookup_loop_keys)
qed

lemma map_of_agreeing:
  "k \<in> fst ` set xs \<Longrightarrow> \<forall>e \<in> set xs. fst e = k \<longrightarrow> snd e = v \<Longrightarrow> map_of xs k = Some v"
  by (induction xs) auto

lemma views_lookup_loop_last:
  assumes "views = pre @ item # post" "view_key item \<notin> view_key ` set post"
  shows "map_of (views_lookup_loop [] views) (view_key item) = Some (viewId item)"
proof -
  have "map_of (map (\<lambda>item. (view_key item, viewId item)) (rev post)) (view_key item) = None"
    using assms(2) by (simp add: map_of_eq_None_iff image_image)
  then show ?thesis
    by (simp add: views_lookup_loop_map_of assms(1) rev_map map_add_def)
qed

lemma views_lookup_loop_agreeing:
  assumes "v0 \<in> set vs"
    and "\<forall>w \<in> set vs. view_key w = view_key v0 \<longrightarrow> viewId w = viewId v0"
  shows "map_of (views_lookup_loop [] vs) (view_key v0) = Some (viewId v0)"
proof -
  let ?xs = "rev (map (\<lambda>item. (view_key item, viewId item)) vs)"
  have set_xs: "set ?xs = (\<lambda>item. (view_key item, viewId item)) ` set vs"
    by simp
  have "map_of ?xs (view_key v0) = Some (viewId v0)"
  proof (rule map_of_agreeing)
    show "view_key v0 \<in> fst ` set ?xs"
      unfolding set_xs using assms(1) by (simp add: image_image)
    show "\<forall>e \<in> set ?xs. fst e = view_key v0 \<longrightarrow> snd e = viewId v0"
      unfolding set_xs using assms(2) by simp
  qed
  then show ?thesis by (simp add: views_lookup_loop_map_of)
qed

lemma views_lookup_loop_permuted:
  assumes "mset views' = mset views"
    and "\<forall>v \<in> set views. \<forall>w \<in> set views. view_key v = b \<and> view_key w = b \<longrightarrow> viewId v = viewId w"
  shows "map_of (views_lookup_loop [] views') b = map_of (views_lookup_loop [] views) b"
proof (cases "b \<in> view_key ` set views")
  case False
  have sets: "set views' = set views"
    using assms(1) by (rule mset_eq_setD)
  from False have "b \<notin> fst ` set (views_lookup_loop [] views)"
    by (simp add: views_lookup_loop_keys)
  moreover from False sets have "b \<notin> fst ` set (views_lookup_loop [] views')"
    by (simp add: views_lookup_loop_keys)
  ultimately have "map_of (views_lookup_loop [] views) b = None"
    "map_of (views_lookup_loop [] views') b = None"
    by (simp_all only: map_of_eq_None_iff not_False_eq_True)
  then show ?thesis by simp
next
  case True
  have sets: "set views' = set views"
    using assms(1) by (rule mset_eq_setD)
  from True obtain v0 where v0: "v0 \<in> set views" "view_key v0 = b" by blast
  have agree: "\<forall>w \<in> set views. view_key w = view_key v0 \<longrightarrow> viewId w = viewId v0"
    using assms(2) v0 by blast
  have "map_of (views_lookup_loop [] views) (view_key v0) = Some (viewId v0)"
    by (rule views_lookup_loop_agreeing [OF v0(1) agree])
  moreover have "map_of (views_lookup_loop [] views') (view_key v0) = Some (viewId v0)"
    using v0(1) agree unfolding sets [symmetric] by (rule views_lookup_loop_agreeing)
  ultimately show ?thesis using v0(2) by simp
qed

text \<open>
  C6. A document of \<open>N\<close> view records: the catalogue has one entry per distinct
  basename, so exactly \<open>N\<close> entries when the basenames are distinct and fewer when two
  collide; a basename maps to the view identifier of the last record that has it; and
  the mapping does not depend on the order of the records, for every basename whose
  records agree on the view identifier (in particular every basename that does not
  collide).
\<close>

theorem catalogue_entries_and_collisions:
  "\<exists>lookup. load_viewids (Some views) = Inr lookup \<and>
     distinct (map fst lookup) \<and>
     length lookup = card (view_key ` set views) \<and>
     (distinct (map view_key views) \<longrightarrow> length lookup = length views) \<and>
     (\<not> distinct (map view_key views) \<longrightarrow> length lookup < length views) \<and>
     (\<forall>pre item post. views = pre @ item # post \<and> view_key item \<notin> view_key ` set post \<longrightarrow>
        map_of lookup (view_key item) = Some (viewId item)) \<and>
     (\<forall>views' lookup' b. mset views' = mset views \<and> load_viewids (Some views') = Inr lookup' \<and>
        (\<forall>v \<in> set views. \<forall>w \<in> set views. view_key v = b \<and> view_key w = b \<longrightarrow> viewId v = viewId w) \<longrightarrow>
        map_of lookup' b = map_of lookup b)"
proof -
  let ?lookup = "views_lookup_loop [] views"
  have card: "length ?lookup = card (view_key ` set views)"
    by (rule views_lookup_loop_length)
  have "length ?lookup = length views" if "distinct (map view_key views)"
    using that card distinct_card [of "map view_key views"] by simp
  moreover have "length ?lookup < length views" if "\<not> distinct (map view_key views)"
  proof -
    have "card (set (map view_key views)) \<le> length (map view_key views)"
      by (rule card_length)
    moreover have "card (set (map view_key views)) \<noteq> length (map view_key views)"
      using that card_distinct by blast
    ultimately show ?thesis using card by simp
  qed
  moreover have "distinct (map fst ?lookup)"
    by (rule views_lookup_loop_distinct) simp
  moreover have "map_of ?lookup (view_key item) = Some (viewId item)"
    if "views = pre @ item # post \<and> view_key item \<notin> view_key ` set post" for pre item post
    using that views_lookup_loop_last [of views pre item post] by blast
  moreover have "map_of lookup' b = map_of ?lookup b"
    if "mset views' = mset views \<and> load_viewids (Some views') = Inr lookup' \<and>
        (\<forall>v \<in> set views. \<forall>w \<in> set views. view_key v = b \<and> view_key w = b \<longrightarrow> viewId v = viewId w)"
    for views' lookup' b
  proof -
    from that have "lookup' = views_lookup_loop [] views'"
      by (simp add: load_viewids_def)
    with that views_lookup_loop_permuted [of views' views b] show ?thesis by blast
  qed
  moreover have "load_viewids (Some views) = Inr ?lookup"
    by (simp add: load_viewids_def)
  ultimately show ?thesis
    using card by (intro exI [of _ ?lookup] conjI allI impI) assumption+
qed

theorem catalogue_entries_and_collisions_witness:
  "\<not> distinct (map view_key colliding_views) \<and>
   (\<exists>lookup. load_viewids (Some colliding_views) = Inr lookup \<and> length lookup < 3 \<and>
      map_of lookup ''a.jpg'' = Some ''2'' \<and> map_of lookup ''b.jpg'' = Some ''3'')"
proof -
  have keys: "map view_key colliding_views = [''a.jpg'', ''b.jpg'', ''a.jpg'']"
    by (simp add: colliding_views_def view_key_def basename_def)
  from catalogue_entries_and_collisions [of colliding_views] obtain lookup where
    l: "load_viewids (Some colliding_views) = Inr lookup"
    and short: "\<not> distinct (map view_key colliding_views) \<longrightarrow> length lookup < length colliding_views"
    and last: "\<forall>pre item post. colliding_views = pre @ item # post \<and>
        view_key item \<notin> view_key ` set post \<longrightarrow> map_of lookup (view_key item) = Some (viewId item)"
    by blast
  have nd: "\<not> distinct (map view_key colliding_views)"
    by (simp add: keys)
  from last [rule_format, of "[\<lparr>path = ''/p/a.jpg'', viewId = ''1''\<rparr>, \<lparr>path = ''/p/b.jpg'', viewId = ''3''\<rparr>]"
      "\<lparr>path = ''/q/a.jpg'', viewId = ''2''\<rparr>" "[]"]
  have a: "map_of lookup ''a.jpg'' = Some ''2''"
    by (simp add: colliding_views_def view_key_def basename_def)
  from last [rule_format, of "[\<lparr>path = ''/p/a.jpg'', viewId = ''1''\<rparr>]"
      "\<lparr>path = ''/p/b.jpg'', viewId = ''3''\<rparr>" "[\<lparr>path = ''/q/a.jpg'', viewId = ''2''\<rparr>]"]
  have b: "map_of lookup ''b.jpg'' = Some ''3''"
    by (simp add: colliding_views_def view_key_def basename_def)
  from short [rule_format, OF nd] have "length lookup < 3"
    by (simp add: colliding_views_def)
  with nd l a b show ?thesis by blast
qed

section \<open>The marker table\<close>

lemma parse_row_well_formed:
  "well_formed_row row \<Longrightarrow> parse_row row = Inr (row ! 2, marker_of_row row)"
  by (auto simp: well_formed_row_def parse_row_def marker_of_row_def)

lemma csv_data_well_formed:
  "\<forall>row \<in> set rows. well_formed_row row \<Longrightarrow>
   csv_data rows = Inr (map (\<lambda>row. (row ! 2, marker_of_row row)) rows)"
  by (induction rows) (simp_all add: parse_row_well_formed)

lemma set_update_subset: "e \<in> set (AList.update k v d) \<Longrightarrow> e = (k, v) \<or> e \<in> set d"
  by (induction d) (auto split: if_splits)

lemma dict_from_keys_values:
  "\<forall>e \<in> set d. snd e = v \<Longrightarrow> \<forall>e \<in> set (dict_from_keys d ks v). snd e = v"
proof (induction ks arbitrary: d)
  case Nil
  then show ?case by simp
next
  case (Cons k ks)
  have "\<forall>e \<in> set (AList.update k v d). snd e = v"
    using Cons.prems by (auto dest: set_update_subset)
  from Cons.IH [OF this] show ?case by simp
qed

lemma sum_list_update_append:
  "map_of d k = Some vs \<Longrightarrow>
   sum_list (map (\<lambda>e. length (snd e)) (AList.update k (vs @ [v]) d))
     = sum_list (map (\<lambda>e. length (snd e)) d) + 1"
  by (induction d) (auto split: if_splits)

lemma append_items_result:
  "fst ` set items \<subseteq> fst ` set d \<Longrightarrow>
   \<exists>d'. append_items d items = Inr d' \<and> map fst d' = map fst d \<and>
     (\<forall>f. map_of d' f =
        map_option (\<lambda>ms. ms @ map snd (filter (\<lambda>item. fst item = f) items)) (map_of d f)) \<and>
     sum_list (map (\<lambda>e. length (snd e)) d') = sum_list (map (\<lambda>e. length (snd e)) d) + length items"
proof (induction items arbitrary: d)
  case Nil
  show ?case by (simp add: option.map_ident)
next
  case (Cons item items)
  obtain f0 m where item: "item = (f0, m)" by (cases item)
  from Cons.prems item have "f0 \<in> fst ` set d" by simp
  then obtain ms where ms: "map_of d f0 = Some ms"
    by (cases "map_of d f0") (auto simp: map_of_eq_None_iff)
  let ?d1 = "AList.update f0 (ms @ [m]) d"
  have keys1: "map fst ?d1 = map fst d"
    using \<open>f0 \<in> fst ` set d\<close> by (simp add: update_keys)
  then have "fst ` set ?d1 = fst ` set d"
    by (metis set_map)
  with Cons.prems have "fst ` set items \<subseteq> fst ` set ?d1" by simp
  from Cons.IH [OF this] obtain d' where
    r: "append_items ?d1 items = Inr d'"
    and k: "map fst d' = map fst ?d1"
    and v: "\<And>f. map_of d' f =
        map_option (\<lambda>ms. ms @ map snd (filter (\<lambda>item. fst item = f) items)) (map_of ?d1 f)"
    and s: "sum_list (map (\<lambda>e. length (snd e)) d')
        = sum_list (map (\<lambda>e. length (snd e)) ?d1) + length items"
    by blast
  have "append_items d (item # items) = Inr d'"
    using r ms item by simp
  moreover have "map fst d' = map fst d"
    using k keys1 by simp
  moreover have "map_of d' f =
      map_option (\<lambda>ms. ms @ map snd (filter (\<lambda>item. fst item = f) (item # items))) (map_of d f)"
    for f
    using v [of f] ms item by (cases "f = f0") (simp_all add: update_conv')
  moreover have "sum_list (map (\<lambda>e. length (snd e)) d')
      = sum_list (map (\<lambda>e. length (snd e)) d) + length (item # items)"
    using s sum_list_update_append [OF ms, of m] by simp
  ultimately show ?case by blast
qed

lemma images_of_rows_result:
  assumes "\<forall>row \<in> set rows. well_formed_row row"
  shows "\<exists>images. images_of_rows rows = Inr images \<and> distinct (map fst images) \<and>
     sum_list (map (\<lambda>e. length (snd e)) images) = length rows \<and>
     (\<forall>f. map_of images f =
        (if f \<in> (\<lambda>row. row ! 2) ` set rows
         then Some (map marker_of_row (filter (\<lambda>row. row ! 2 = f) rows)) else None))"
proof -
  let ?items = "map (\<lambda>row. (row ! 2, marker_of_row row)) rows"
  let ?d0 = "dict_from_keys [] (map fst ?items) ([] :: marker list)"
  have keys0: "fst ` set ?d0 = (\<lambda>row. row ! 2) ` set rows"
    by (simp add: keys_dict_from_keys image_image)
  have dist0: "distinct (map fst ?d0)"
    by (rule distinct_dict_from_keys) simp
  have "\<forall>e \<in> set ?d0. snd e = []"
    by (rule dict_from_keys_values) simp
  then have sum0: "sum_list (map (\<lambda>e. length (snd e)) ?d0) = 0"
    by simp
  have "fst ` set ?items \<subseteq> fst ` set ?d0"
    by (simp add: keys_dict_from_keys o_def image_image)
  from append_items_result [OF this] obtain images where
    r: "append_items ?d0 ?items = Inr images"
    and k: "map fst images = map fst ?d0"
    and v: "\<And>f. map_of images f =
        map_option (\<lambda>ms. ms @ map snd (filter (\<lambda>item. fst item = f) ?items)) (map_of ?d0 f)"
    and s: "sum_list (map (\<lambda>e. length (snd e)) images)
        = sum_list (map (\<lambda>e. length (snd e)) ?d0) + length ?items"
    by blast
  have "images_of_rows rows = Inr images"
    using r by (simp add: images_of_rows_def csv_data_well_formed [OF assms])
  moreover have "distinct (map fst images)"
    using k dist0 by simp
  moreover have "sum_list (map (\<lambda>e. length (snd e)) images) = length rows"
    using s sum0 by simp
  moreover have "map_of images f =
      (if f \<in> (\<lambda>row. row ! 2) ` set rows
       then Some (map marker_of_row (filter (\<lambda>row. row ! 2 = f) rows)) else None)" for f
  proof -
    have "map snd (filter (\<lambda>item. fst item = f) ?items)
        = map marker_of_row (filter (\<lambda>row. row ! 2 = f) rows)"
      by (simp add: filter_map comp_def)
    then show ?thesis
      using v [of f] by (auto simp: map_of_dict_from_keys image_image)
  qed
  ultimately show ?thesis by blast
qed

text \<open>
  C5. A marker table that the reader reads without error as \<open>R\<close> rows, all well formed:
  \<^verbatim>\<open>load_images\<close> returns a dictionary in which every file name occurs once, the sizes
  of the groups add up to \<open>R\<close>, and the group of a file name is made of the rows with that
  name in the third field, in the order of the file; a marker keeps the text of the
  fields \<open>x\<close>, \<open>y\<close> and \<open>size\<close> and holds the fourth field as an integer.
\<close>

theorem load_images_groups_rows_in_order:
  assumes "csv_reader d text = (rows, None)"
    and "\<forall>row \<in> set rows. well_formed_row row"
  shows "\<exists>images. load_images text d = Inr images \<and> distinct (map fst images) \<and>
     sum_list (map (\<lambda>e. length (snd e)) images) = length rows \<and>
     (\<forall>f. map_of images f =
        (if f \<in> (\<lambda>row. row ! 2) ` set rows
         then Some (map marker_of_row (filter (\<lambda>row. row ! 2 = f) rows))
         else None)) \<and>
     (\<forall>row \<in> set rows.
        feat_x (marker_of_row row) = row ! 0 \<and> feat_y (marker_of_row row) = row ! 1 \<and>
        feat_size (marker_of_row row) = row ! 4 \<and>
        py_int (row ! 3) = Some (tagid (marker_of_row row)))"
proof -
  have "feat_x (marker_of_row row) = row ! 0 \<and> feat_y (marker_of_row row) = row ! 1 \<and>
        feat_size (marker_of_row row) = row ! 4 \<and>
        py_int (row ! 3) = Some (tagid (marker_of_row row))"
    if "row \<in> set rows" for row
    using assms(2) that by (auto simp: marker_of_row_def well_formed_row_def)
  moreover have "load_images text d = images_of_rows rows"
    by (simp add: load_images_def assms(1))
  ultimately show ?thesis
    using images_of_rows_result [OF assms(2)] by auto
qed

lemma three_rows:
  "csv_reader (CHR '','') three_rows_table =
     ([[''10'', ''20'', ''imgA.jpg'', ''3'', ''5''], [''30'', ''40'', ''imgB.jpg'', ''3'', ''5''],
       [''11'', ''21'', ''imgA.jpg'', ''-4'', ''6'']], None)"
  unfolding three_rows_table_def by code_simp

lemma three_rows_ints: "py_int ''3'' = Some 3" "py_int ''-4'' = Some (- 4)"
  by code_simp+

theorem load_images_groups_rows_in_order_witness:
  "fst (csv_reader (CHR '','') three_rows_table) =
     [[''10'', ''20'', ''imgA.jpg'', ''3'', ''5''], [''30'', ''40'', ''imgB.jpg'', ''3'', ''5''],
      [''11'', ''21'', ''imgA.jpg'', ''-4'', ''6'']] \<and>
   (\<exists>images. load_images three_rows_table (CHR '','') = Inr images \<and>
      sum_list (map (\<lambda>e. length (snd e)) images) = 3 \<and>
      map_of images ''imgA.jpg'' =
        Some [\<lparr>feat_x = ''10'', feat_y = ''20'', feat_size = ''5'', tagid = 3\<rparr>,
              \<lparr>feat_x = ''11'', feat_y = ''21'', feat_size = ''6'', tagid = - 4\<rparr>] \<and>
      map_of images ''imgB.jpg'' =
        Some [\<lparr>feat_x = ''30'', feat_y = ''40'', feat_size = ''5'', tagid = 3\<rparr>])"
proof -
  let ?rows = "[[''10'', ''20'', ''imgA.jpg'', ''3'', ''5''], [''30'', ''40'', ''imgB.jpg'', ''3'', ''5''],
      [''11'', ''21'', ''imgA.jpg'', ''-4'', ''6'']]"
  have wf: "\<forall>row \<in> set ?rows. well_formed_row row"
    by (simp add: well_formed_row_def three_rows_ints)
  from load_images_groups_rows_in_order [OF three_rows wf] obtain images where
    l: "load_images three_rows_table (CHR '','') = Inr images"
    and s: "sum_list (map (\<lambda>e. length (snd e)) images) = length ?rows"
    and g: "\<And>f. map_of images f =
        (if f \<in> (\<lambda>row. row ! 2) ` set ?rows
         then Some (map marker_of_row (filter (\<lambda>row. row ! 2 = f) ?rows))
         else None)"
    by blast
  have a: "map_of images ''imgA.jpg'' =
        Some [\<lparr>feat_x = ''10'', feat_y = ''20'', feat_size = ''5'', tagid = 3\<rparr>,
              \<lparr>feat_x = ''11'', feat_y = ''21'', feat_size = ''6'', tagid = - 4\<rparr>]"
    by (simp add: g marker_of_row_def three_rows_ints)
  have b: "map_of images ''imgB.jpg'' =
        Some [\<lparr>feat_x = ''30'', feat_y = ''40'', feat_size = ''5'', tagid = 3\<rparr>]"
    by (simp add: g marker_of_row_def three_rows_ints)
  from s have "sum_list (map (\<lambda>e. length (snd e)) images) = 3"
    by simp
  with l a b show ?thesis
    by (auto simp: three_rows)
qed

section \<open>The feature index\<close>

lemma write_describers_feature_index:
  assumes "write_describers bypass ty images lookup out = Inr st"
    and "(img, vid) \<in> set lookup"
    and "distinct (map snd lookup)"
  shows "map_of (feature_lookup st) vid = Some (tag_index (markers_of images img) 0 [])"
proof -
  from write_describers_entry [OF assms] obtain st1 st2 where
    step: "write_view bypass ty images st1 (img, vid) = Inr st2"
    and init: "map_of (feature_lookup st1) vid = Some []"
    and same: "map_of (feature_lookup st) vid = map_of (feature_lookup st2) vid"
    by blast
  show ?thesis
  proof (cases "map_of images img")
    case None
    with step have "feature_lookup st2 = feature_lookup st1"
      by (auto simp: write_view_None)
    with None init same show ?thesis
      by (simp add: markers_of_def)
  next
    case (Some ms)
    with step obtain feat fl where
      loop: "features_loop ms vid 0 [] (feature_lookup st1) = Inr (feat, fl)"
      and fl: "feature_lookup st2 = fl"
      by (auto simp: write_view_def Let_def split: sum.splits if_splits option.splits)
    from loop have "fl = AList.update vid (tag_index ms 0 []) (feature_lookup st1)"
      by (simp add: features_loop_Some [OF init])
    with fl same Some show ?thesis
      by (simp add: markers_of_def update_conv')
  qed
qed

lemma distinct_tag_index: "distinct (map fst d) \<Longrightarrow> distinct (map fst (tag_index ms i d))"
  by (induction ms arbitrary: i d) (auto simp: distinct_update)









section \<open>The match file\<close>

lemma combinations2_mem:
  "(x, y) \<in> set (combinations2 xs) \<Longrightarrow> x \<in> set xs \<and> y \<in> set xs \<and> (distinct xs \<longrightarrow> x \<noteq> y)"
  by (induction xs) auto

lemma out_temp_empty:
  "\<forall>pair \<in> set image_pairs. match_block set_order ty fl pair = Inr [] \<Longrightarrow>
   out_temp set_order ty fl image_pairs = Inr []"
  by (induction image_pairs) simp_all

lemma match_block_disjoint:
  assumes "map_of fl a = Some dA" and "map_of fl b = Some dB"
    and "fst ` set dA \<inter> fst ` set dB = {}"
  shows "match_block set_order ty fl (a, b) = Inr []"
proof -
  from assms(3) have "filter (\<lambda>t. t \<in> set (map fst dB)) (map fst dA) = []"
    by (auto simp: filter_empty_conv)
  then show ?thesis
    by (simp add: match_block_def assms(1,2) del: set_map)
qed

lemma processChunk_hack_steps:
  assumes "hack nd" and "processChunk set_order nd = Inr (out, dir)"
  shows "\<exists>tab lookup images st ls.
     matches nd = Some tab \<and> load_viewids (input nd) = Inr lookup \<and>
     load_images tab (delimiters_options (delimiter nd)) = Inr images \<and>
     write_describers True (type nd) images lookup (output_folder nd) = Inr st \<and>
     out_temp set_order (type nd) (feature_lookup st) (combinations2 (map snd lookup)) = Inr ls \<and>
     dir = (matches_out nd)(''0.matches.txt'' \<mapsto> Text (join [CHR 0x0A] ls))"
proof -
  from assms(2) obtain tab where tbl: "matches nd = Some tab"
    by (cases "matches nd") (simp_all add: processChunk_def)
  from assms(2) tbl obtain lookup where lookup: "load_viewids (input nd) = Inr lookup"
    by (cases "load_viewids (input nd)") (simp_all add: processChunk_def)
  from assms(2) tbl lookup obtain images where
    images: "load_images tab (delimiters_options (delimiter nd)) = Inr images"
    by (cases "load_images tab (delimiters_options (delimiter nd))")
      (simp_all add: processChunk_def)
  from assms tbl lookup images obtain st where
    st: "write_describers True (type nd) images lookup (output_folder nd) = Inr st"
    by (cases "write_describers True (type nd) images lookup (output_folder nd)")
      (simp_all add: processChunk_def)
  from assms tbl lookup images st obtain ls where
    ls: "out_temp set_order (type nd) (feature_lookup st) (combinations2 (map snd lookup)) = Inr ls"
    by (cases "out_temp set_order (type nd) (feature_lookup st) (combinations2 (map snd lookup))")
      (simp_all add: processChunk_def make_matches_txt_def)
  from assms tbl lookup images st ls
  have "dir = (matches_out nd)(''0.matches.txt'' \<mapsto> Text (join [CHR 0x0A] ls))"
    by (simp add: processChunk_def make_matches_txt_def)
  with tbl lookup images st ls show ?thesis by blast
qed

text \<open>
  C10. With bypass enabled, a run that completes has written \<open>0.matches.txt\<close>; and when
  no two catalogued views (with distinct identifiers) share a marker identifier, the
  file is empty.
\<close>

theorem matches_file_always_written:
  assumes "hack nd" and "processChunk set_order nd = Inr (out, dir)"
  shows "(\<exists>txt. dir ''0.matches.txt'' = Some (Text txt)) \<and>
     (\<forall>tab lookup images.
        matches nd = Some tab \<and> load_viewids (input nd) = Inr lookup \<and>
        load_images tab (delimiters_options (delimiter nd)) = Inr images \<and>
        distinct (map snd lookup) \<and>
        (\<forall>a \<in> set lookup. \<forall>b \<in> set lookup. snd a \<noteq> snd b \<longrightarrow>
           tagid ` set (markers_of images (fst a)) \<inter> tagid ` set (markers_of images (fst b)) = {}) \<longrightarrow>
        dir ''0.matches.txt'' = Some (Text []))"
proof -
  from processChunk_hack_steps [OF assms] obtain tab lookup images st ls where
    tbl: "matches nd = Some tab"
    and lookup: "load_viewids (input nd) = Inr lookup"
    and images: "load_images tab (delimiters_options (delimiter nd)) = Inr images"
    and st: "write_describers True (type nd) images lookup (output_folder nd) = Inr st"
    and ls: "out_temp set_order (type nd) (feature_lookup st) (combinations2 (map snd lookup)) = Inr ls"
    and dir: "dir = (matches_out nd)(''0.matches.txt'' \<mapsto> Text (join [CHR 0x0A] ls))"
    by blast
  have written: "dir ''0.matches.txt'' = Some (Text (join [CHR 0x0A] ls))"
    by (simp add: dir)
  have "ls = []"
    if dist: "distinct (map snd lookup)"
      and disj: "\<forall>a \<in> set lookup. \<forall>b \<in> set lookup. snd a \<noteq> snd b \<longrightarrow>
           tagid ` set (markers_of images (fst a)) \<inter> tagid ` set (markers_of images (fst b)) = {}"
  proof -
    have "match_block set_order (type nd) (feature_lookup st) pair = Inr []"
      if "pair \<in> set (combinations2 (map snd lookup))" for pair
    proof -
      obtain va vb where pair: "pair = (va, vb)" by (cases pair)
      from combinations2_mem [of va vb "map snd lookup"] that pair dist
      have "va \<in> set (map snd lookup)" "vb \<in> set (map snd lookup)" "va \<noteq> vb"
        by simp_all
      then obtain a b where a: "(a, va) \<in> set lookup" and b: "(b, vb) \<in> set lookup"
        by auto
      have A: "map_of (feature_lookup st) va = Some (tag_index (markers_of images a) 0 [])"
        by (rule write_describers_feature_index [OF st a dist])
      have B: "map_of (feature_lookup st) vb = Some (tag_index (markers_of images b) 0 [])"
        by (rule write_describers_feature_index [OF st b dist])
      from disj [rule_format, OF a b] \<open>va \<noteq> vb\<close>
      have "tagid ` set (markers_of images a) \<inter> tagid ` set (markers_of images b) = {}"
        by simp
      then have "fst ` set (tag_index (markers_of images a) 0 [])
          \<inter> fst ` set (tag_index (markers_of images b) 0 []) = {}"
        by (simp add: keys_tag_index)
      from match_block_disjoint [OF A B this] pair show ?thesis by simp
    qed
    then have "out_temp set_order (type nd) (feature_lookup st) (combinations2 (map snd lookup)) = Inr []"
      by (intro out_temp_empty ballI)
    with ls show ?thesis by simp
  qed
  with written tbl lookup images show ?thesis
    by auto
qed

lemma disjoint_load_images: "load_images disjoint_table (CHR '','') = Inr disjoint_images"
  unfolding disjoint_table_def disjoint_images_def by code_simp

lemma disjoint_write_describers:
  "\<exists>st. write_describers True CCTag3 disjoint_images [(''imgA.jpg'', ''1''), (''imgB.jpg'', ''2'')] out = Inr st \<and>
     feature_lookup st = [(''1'', [(3, ''0'')]), (''2'', [(4, ''0'')])]"
  by (simp add: disjoint_images_def write_describers_def write_view_def pack_Q_def str_nat_0)

lemma disjoint_processChunk:
  "\<exists>out dir. processChunk set_order disjoint_node = Inr (out, dir)"
proof -
  from disjoint_write_describers [of Map.empty] obtain st where
    "write_describers True CCTag3 disjoint_images [(''imgA.jpg'', ''1''), (''imgB.jpg'', ''2'')] Map.empty = Inr st"
    "feature_lookup st = [(''1'', [(3, ''0'')]), (''2'', [(4, ''0'')])]"
    by blast
  then show ?thesis
    by (simp add: processChunk_def disjoint_node_def disjoint_load_images scenario_load_viewids
        make_matches_txt_def match_block_def)
qed

theorem matches_file_always_written_witness:
  "hack disjoint_node \<and>
   (\<exists>out dir. processChunk (\<lambda>xs. xs) disjoint_node = Inr (out, dir) \<and>
      dir ''0.matches.txt'' = Some (Text []))"
proof -
  have h: "hack disjoint_node"
    by (simp add: disjoint_node_def)
  from disjoint_processChunk [of "\<lambda>xs. xs"] obtain out dir where
    run: "processChunk (\<lambda>xs. xs) disjoint_node = Inr (out, dir)"
    by blast
  have "matches disjoint_node = Some disjoint_table \<and>
      load_viewids (input disjoint_node) = Inr [(''imgA.jpg'', ''1''), (''imgB.jpg'', ''2'')] \<and>
      load_images disjoint_table (delimiters_options (delimiter disjoint_node)) = Inr disjoint_images \<and>
      distinct (map snd [(''imgA.jpg'', ''1''), (''imgB.jpg'', ''2'')]) \<and>
      (\<forall>a \<in> set [(''imgA.jpg'', ''1''), (''imgB.jpg'', ''2'')].
         \<forall>b \<in> set [(''imgA.jpg'', ''1''), (''imgB.jpg'', ''2'')]. snd a \<noteq> snd b \<longrightarrow>
           tagid ` set (markers_of disjoint_images (fst a))
             \<inter> tagid ` set (markers_of disjoint_images (fst b)) = {})"
    by (simp add: disjoint_node_def scenario_load_viewids disjoint_load_images
        disjoint_images_def markers_of_def)
  with matches_file_always_written [OF h run]
  have "dir ''0.matches.txt'' = Some (Text [])"
    by blast
  with h run show ?thesis by blast
qed

section \<open>The blocks of the match file\<close>









end
